theory Spec2Isabelle
  imports Complex_Main "HOL-Library.Word" "HOL-Library.Multiset" "HOL-Library.Sublist"
begin

section \<open>Machine integers of the C++ sources\<close>

text \<open>
  A C++ \<^verbatim>\<open>int\<close> is a 32-bit two's complement value: arithmetic is that of \<open>32 word\<close>,
  comparisons are the signed ones (\<open>\<le>s\<close>, \<open><s\<close>) and \<open>sint\<close> reads the value.
  \<^verbatim>\<open>unsigned\<close> is the same word read with \<open>uint\<close>/\<open>unat\<close>, \<^verbatim>\<open>size_t\<close> is a 64-bit word
  and \<^verbatim>\<open>unsigned char\<close> an 8-bit one.
\<close>

type_synonym cint = "32 word"
type_synonym cuint = "32 word"
type_synonym size_t = "64 word"
type_synonym uchar = "8 word"

section \<open>The Mandelbrot renderers (mandelbrot.cpp, both versions)\<close>

subsection \<open>findMandelBrot\<close>

text \<open>
  The arithmetic of \<^verbatim>\<open>double\<close> is a parameter of the model: a record of the operations
  and constants the function uses. Nothing is assumed about them, so every result below
  holds for IEEE doubles (with their NaNs and infinities) as well as for the reals.
\<close>

record 'd dbl_ops =
  d_add :: "'d \<Rightarrow> 'd \<Rightarrow> 'd"
  d_sub :: "'d \<Rightarrow> 'd \<Rightarrow> 'd"
  d_mul :: "'d \<Rightarrow> 'd \<Rightarrow> 'd"
  d_less :: "'d \<Rightarrow> 'd \<Rightarrow> bool"
  d_zero :: "'d"
  d_two :: "'d"
  d_four :: "'d"

definition real_ops :: "real dbl_ops" where
  "real_ops = \<lparr>d_add = (+), d_sub = (-), d_mul = (*), d_less = (<),
                d_zero = 0, d_two = 2, d_four = 4\<rparr>"

text \<open>The loop condition \<^verbatim>\<open>i < max_iterations && zr * zr + zi * zi < 4.0\<close>.\<close>

definition mandel_cond :: "'d dbl_ops \<Rightarrow> cint \<Rightarrow> cint \<Rightarrow> 'd \<Rightarrow> 'd \<Rightarrow> bool" where
  "mandel_cond ops max_iterations i zr zi \<longleftrightarrow>
     i <s max_iterations \<and>
     d_less ops (d_add ops (d_mul ops zr zr) (d_mul ops zi zi)) (d_four ops)"

text \<open>
  The \<^verbatim>\<open>while\<close> loop of \<^verbatim>\<open>findMandelBrot\<close>, from the state \<open>(i, zr, zi)\<close>; it returns the
  final value of \<open>i\<close>, which is also the number of iterations run when started at \<open>0\<close>.
\<close>

function mandel_loop ::
  "'d dbl_ops \<Rightarrow> 'd \<Rightarrow> 'd \<Rightarrow> cint \<Rightarrow> cint \<Rightarrow> 'd \<Rightarrow> 'd \<Rightarrow> cint" where
  "mandel_loop ops cr ci max_iterations i zr zi =
     (if mandel_cond ops max_iterations i zr zi
      then (let temp = d_add ops (d_sub ops (d_mul ops zr zr) (d_mul ops zi zi)) cr;
                zi' = d_add ops (d_mul ops (d_mul ops (d_two ops) zr) zi) ci
            in mandel_loop ops cr ci max_iterations (i + 1) temp zi')
      else i)"
  by pat_completeness auto

termination mandel_loop
proof (relation "measure (\<lambda>(ops, cr, ci, m, i, zr, zi). nat (sint m - sint i))")
  show "wf (measure (\<lambda>(ops, cr, ci, m, i, zr, zi). nat (sint m - sint i)))" by simp
next
  fix ops :: "'d dbl_ops" and cr ci zr zi x xa :: 'd and max_iterations i :: cint
  assume "mandel_cond ops max_iterations i zr zi"
  then have lt: "sint i < sint max_iterations"
    by (simp add: mandel_cond_def word_sless_alt)
  moreover have "sint max_iterations < 2 ^ 31" using sint_lt [of max_iterations] by simp
  moreover have "- (2 ^ 31) \<le> sint i" using sint_ge [of i] by simp
  ultimately have "sint (i + 1) = sint i + 1"
    by (simp add: sint_word_ariths signed_take_bit_int_eq_self)
  with lt show "((ops, cr, ci, max_iterations, i + 1, x, xa),
              (ops, cr, ci, max_iterations, i, zr, zi))
             \<in> measure (\<lambda>(ops, cr, ci, m, i, zr, zi). nat (sint m - sint i))"
    by simp
qed

definition findMandelBrot :: "'d dbl_ops \<Rightarrow> 'd \<Rightarrow> 'd \<Rightarrow> cint \<Rightarrow> cint" where
  "findMandelBrot ops cr ci max_iterations =
     (let i = mandel_loop ops cr ci max_iterations 0 (d_zero ops) (d_zero ops)
      in if max_iterations \<le>s i then - 1 else i)"

text \<open>
  For stating what the loop computes: the second conjunct of the loop condition, on a
  pair \<open>(zr, zi)\<close>; the loop body, which maps \<open>(zr, zi)\<close> to the next pair; and the pair
  the loop holds after \<open>k\<close> iterations, started at \<open>(0.0, 0.0)\<close>.
\<close>

definition mandel_inside :: "'d dbl_ops \<Rightarrow> 'd \<times> 'd \<Rightarrow> bool" where
  "mandel_inside ops z \<longleftrightarrow>
     d_less ops (d_add ops (d_mul ops (fst z) (fst z)) (d_mul ops (snd z) (snd z))) (d_four ops)"

definition mandel_next :: "'d dbl_ops \<Rightarrow> 'd \<Rightarrow> 'd \<Rightarrow> 'd \<times> 'd \<Rightarrow> 'd \<times> 'd" where
  "mandel_next ops cr ci z =
     (d_add ops (d_sub ops (d_mul ops (fst z) (fst z)) (d_mul ops (snd z) (snd z))) cr,
      d_add ops (d_mul ops (d_mul ops (d_two ops) (fst z)) (snd z)) ci)"

definition mandel_orbit :: "'d dbl_ops \<Rightarrow> 'd \<Rightarrow> 'd \<Rightarrow> nat \<Rightarrow> 'd \<times> 'd" where
  "mandel_orbit ops cr ci k = (mandel_next ops cr ci ^^ k) (d_zero ops, d_zero ops)"

subsection \<open>getColor\<close>

text \<open>The three \<^verbatim>\<open>int\<close>s of the array \<^verbatim>\<open>colors\<close>, as a triple.\<close>

definition getColor :: "cint \<Rightarrow> cint \<times> cint \<times> cint" where
  "getColor n =
     (if n = - 1 then (0, 0, 0)
      else if n = 0 then (255, 0, 0)
      else if n <s 16 then (16 * (16 - n), 0, 16 * n - 1)
      else if n <s 32 then (0, 16 * (n - 16), 16 * (32 - n) - 1)
      else if n <s 64 then (8 * (n - 32), 8 * (64 - n) - 1, 0)
      else (255 - (n - 64) * 4, 0, 0))"

text \<open>
  The assignment \<^verbatim>\<open>image[y][x].r = colors[0]\<close> converts an \<^verbatim>\<open>int\<close> to an
  \<^verbatim>\<open>unsigned char\<close>: it keeps the low 8 bits.
\<close>

definition to_uchar :: "cint \<Rightarrow> uchar" where
  "to_uchar c = ucast c"

subsection \<open>The column ranges of the multithreaded renderer\<close>

text \<open>
  In \<^verbatim>\<open>main\<close>: \<^verbatim>\<open>int part = width / threads; int minX = part * i; int maxX = part * (i+1);\<close>
  for \<^verbatim>\<open>i = 0; i < threads; i++\<close>, with \<^verbatim>\<open>width\<close> and \<^verbatim>\<open>threads\<close> unsigned.
\<close>

definition part :: "cuint \<Rightarrow> cuint \<Rightarrow> cint" where
  "part width threads = width div threads"

definition minX :: "cuint \<Rightarrow> cuint \<Rightarrow> cint \<Rightarrow> cint" where
  "minX width threads i = part width threads * i"

definition maxX :: "cuint \<Rightarrow> cuint \<Rightarrow> cint \<Rightarrow> cint" where
  "maxX width threads i = part width threads * (i + 1)"

text \<open>The ranges handed to the threads, in the order the threads are created.\<close>

definition main_ranges :: "cuint \<Rightarrow> cuint \<Rightarrow> (cint \<times> cint) list" where
  "main_ranges width threads =
     map (\<lambda>i. (minX width threads (word_of_nat i), maxX width threads (word_of_nat i)))
       [0..<unat threads]"

text \<open>
  The columns one call of \<^verbatim>\<open>mandelbrot(minX, maxX, ...)\<close> writes in every row: the values of
  \<^verbatim>\<open>j\<close> in \<^verbatim>\<open>for (int j = minX; j < maxX; j++)\<close>.
\<close>

definition mandelbrot_columns :: "cint \<Rightarrow> cint \<Rightarrow> int list" where
  "mandelbrot_columns lo hi = [sint lo .. sint hi - 1]"


section \<open>The thread pool (threadpool.cpp)\<close>

subsection \<open>Data\<close>

text \<open>
  A task is an opaque \<^verbatim>\<open>std::function<void()>\<close>; the model identifies it by a number (in
  \<^verbatim>\<open>main\<close>, the index \<^verbatim>\<open>i\<close> the closure captures).
\<close>

type_synonym job = nat

text \<open>The threads that can own \<^verbatim>\<open>queue_mutex\<close>: the caller of the pool and the workers.\<close>

datatype tid = Client | Worker nat

text \<open>
  The program points of \<^verbatim>\<open>Worker::operator()\<close>. \<^verbatim>\<open>cond.wait(locker, pred)\<close> is the loop
  \<^verbatim>\<open>while (!pred()) wait(locker)\<close>: the predicate is evaluated with the lock held
  (\<open>W_Pred\<close>); \<^verbatim>\<open>wait\<close> (\<open>W_Wait\<close>) releases the lock and blocks (\<open>W_Blocked\<close>) until a
  notification or a spurious wake-up (\<open>W_Woken\<close>), then takes the lock again.
\<close>

datatype wpc =
    W_Lock        \<comment> \<open>line 43: \<^verbatim>\<open>std::unique_lock<std::mutex> locker(pool.queue_mutex)\<close>\<close>
  | W_Pred        \<comment> \<open>line 44: the predicate \<^verbatim>\<open>!pool.tasks.empty() || pool.stop\<close>\<close>
  | W_Wait        \<comment> \<open>line 44: predicate false, about to wait\<close>
  | W_Blocked     \<comment> \<open>line 44: waiting on \<^verbatim>\<open>cond\<close>, lock released\<close>
  | W_Woken       \<comment> \<open>line 44: woken, taking the lock again\<close>
  | W_Check       \<comment> \<open>line 45: \<^verbatim>\<open>if (pool.stop) return\<close>\<close>
  | W_Front       \<comment> \<open>lines 46-47: \<^verbatim>\<open>task = pool.tasks.front(); pool.tasks.pop_front()\<close>\<close>
  | W_Unlock job  \<comment> \<open>line 48: \<^verbatim>\<open>locker.unlock()\<close>\<close>
  | W_Exec job    \<comment> \<open>line 49: \<^verbatim>\<open>task()\<close>\<close>
  | W_Done        \<comment> \<open>returned from \<^verbatim>\<open>operator()\<close>: the thread has finished\<close>
  | W_Undefined   \<comment> \<open>\<^verbatim>\<open>front()\<close> of an empty deque: undefined behaviour\<close>

text \<open>A \<^verbatim>\<open>std::thread\<close> of the vector \<^verbatim>\<open>workers\<close>: where it runs, and whether it is joinable.\<close>

record thread =
  pc :: wpc
  joinable :: bool

text \<open>The members of \<^verbatim>\<open>class ThreadPool\<close>; the waiters of \<^verbatim>\<open>cond\<close> are the blocked workers.\<close>

record pool =
  workers :: "thread list"
  tasks :: "job list"
  mutex :: "tid option"
  stop :: bool

text \<open>
  The calls a client makes on a pool: \<^verbatim>\<open>enqueue(f)\<close>, and the body of the destructor (the
  pool's shutdown). The client's program points are those of the two bodies.
\<close>

datatype call = Enqueue job | Shutdown

datatype cpc =
    C_Idle        \<comment> \<open>between two calls\<close>
  | E_Lock job    \<comment> \<open>line 70: \<^verbatim>\<open>std::unique_lock<std::mutex> lock(queue_mutex)\<close>\<close>
  | E_Push job    \<comment> \<open>line 71: \<^verbatim>\<open>tasks.push_back(std::function<void()>(f))\<close>\<close>
  | E_Notify      \<comment> \<open>line 72: \<^verbatim>\<open>cond.notify_one()\<close>\<close>
  | E_Unlock      \<comment> \<open>line 73: \<^verbatim>\<open>lock\<close> goes out of scope\<close>
  | D_SetStop     \<comment> \<open>line 61: \<^verbatim>\<open>stop = true\<close>\<close>
  | D_Notify      \<comment> \<open>line 62: \<^verbatim>\<open>cond.notify_all()\<close>\<close>
  | D_Join nat    \<comment> \<open>lines 63-64: \<^verbatim>\<open>thread.join()\<close> for the worker of this index\<close>
  | C_Error       \<comment> \<open>\<^verbatim>\<open>std::system_error\<close> thrown by \<^verbatim>\<open>join\<close> and not caught\<close>

text \<open>
  The whole system: the pool, the client (its program point and the calls still to make)
  and two histories that the code does not keep, the tasks taken from the queue and the
  tasks run, each in the order it happened.
\<close>

record state = pool +
  cpc :: cpc
  calls :: "call list"
  dequeued :: "job list"
  executed :: "job list"

subsection \<open>Construction\<close>

text \<open>
  \<^verbatim>\<open>ThreadPool::ThreadPool(size_t threads): stop(false)\<close> pushes one running thread per
  iteration of \<^verbatim>\<open>for (size_t i = 0; i < threads; ++i)\<close>. It has no failing branch; the
  creation of a thread is taken to succeed.
\<close>

definition new_thread :: thread where
  "new_thread = \<lparr>pc = W_Lock, joinable = True\<rparr>"

primrec start_workers :: "nat \<Rightarrow> thread list" where
  "start_workers 0 = []"
| "start_workers (Suc i) = start_workers i @ [new_thread]"

definition ThreadPool :: "size_t \<Rightarrow> pool" where
  "ThreadPool threads =
     \<lparr>workers = start_workers (unat threads), tasks = [], mutex = None, stop = False\<rparr>"

text \<open>A client that constructs a pool and then makes the given calls.\<close>

definition start :: "size_t \<Rightarrow> call list \<Rightarrow> state" where
  "start threads cs =
     pool.extend (ThreadPool threads)
       \<lparr>cpc = C_Idle, calls = cs, dequeued = [], executed = []\<rparr>"

subsection \<open>The condition variable\<close>

definition blocked :: "thread list \<Rightarrow> nat list" where
  "blocked ws = filter (\<lambda>i. pc (ws ! i) = W_Blocked) [0 ..< length ws]"

text \<open>
  \<^verbatim>\<open>notify_one\<close> unblocks one of the waiting threads, if there is one; which one is not
  determined, the number \<open>k\<close> chooses. \<^verbatim>\<open>notify_all\<close> unblocks all of them.
\<close>

definition notify_one :: "nat \<Rightarrow> thread list \<Rightarrow> thread list" where
  "notify_one k ws =
     (case blocked ws of
        [] \<Rightarrow> ws
      | b # bs \<Rightarrow> (let i = (b # bs) ! (k mod length (b # bs))
                  in ws[i := (ws ! i)\<lparr>pc := W_Woken\<rparr>]))"

definition notify_all :: "thread list \<Rightarrow> thread list" where
  "notify_all ws = map (\<lambda>t. if pc t = W_Blocked then t\<lparr>pc := W_Woken\<rparr> else t) ws"

subsection \<open>Steps\<close>

definition set_pc :: "nat \<Rightarrow> wpc \<Rightarrow> state \<Rightarrow> state" where
  "set_pc i p s = s\<lparr>workers := (workers s)[i := (workers s ! i)\<lparr>pc := p\<rparr>]\<rparr>"

text \<open>
  One step of worker \<open>i\<close>; \<open>None\<close> when the worker cannot move (the mutex is taken, it
  is blocked on the condition, or it has finished). Running a task is one step, recorded
  in \<open>executed\<close>; a task is taken not to call the pool itself and not to throw.
\<close>

definition worker_step :: "nat \<Rightarrow> state \<Rightarrow> state option" where
  "worker_step i s =
     (case pc (workers s ! i) of
        W_Lock \<Rightarrow>
          (if mutex s = None then Some (set_pc i W_Pred (s\<lparr>mutex := Some (Worker i)\<rparr>))
           else None)
      | W_Pred \<Rightarrow>
          (if tasks s \<noteq> [] \<or> stop s then Some (set_pc i W_Check s)
           else Some (set_pc i W_Wait s))
      | W_Wait \<Rightarrow> Some (set_pc i W_Blocked (s\<lparr>mutex := None\<rparr>))
      | W_Blocked \<Rightarrow> None
      | W_Woken \<Rightarrow>
          (if mutex s = None then Some (set_pc i W_Pred (s\<lparr>mutex := Some (Worker i)\<rparr>))
           else None)
      | W_Check \<Rightarrow>
          (if stop s then Some (set_pc i W_Done (s\<lparr>mutex := None\<rparr>))
           else Some (set_pc i W_Front s))
      | W_Front \<Rightarrow>
          (case tasks s of
             [] \<Rightarrow> Some (set_pc i W_Undefined s)
           | task # rest \<Rightarrow>
               Some (set_pc i (W_Unlock task)
                 (s\<lparr>tasks := rest, dequeued := dequeued s @ [task]\<rparr>)))
      | W_Unlock task \<Rightarrow> Some (set_pc i (W_Exec task) (s\<lparr>mutex := None\<rparr>))
      | W_Exec task \<Rightarrow> Some (set_pc i W_Lock (s\<lparr>executed := executed s @ [task]\<rparr>))
      | W_Done \<Rightarrow> None
      | W_Undefined \<Rightarrow> None)"

text \<open>
  One step of the client. \<^verbatim>\<open>thread.join()\<close> throws \<^verbatim>\<open>std::system_error\<close> when the thread
  is not joinable; otherwise it blocks until the thread has finished, and the thread is
  not joinable afterwards.
\<close>

definition client_step :: "nat \<Rightarrow> state \<Rightarrow> state option" where
  "client_step k s =
     (case cpc s of
        C_Idle \<Rightarrow>
          (case calls s of
             [] \<Rightarrow> None
           | Enqueue f # cs \<Rightarrow> Some (s\<lparr>cpc := E_Lock f, calls := cs\<rparr>)
           | Shutdown # cs \<Rightarrow> Some (s\<lparr>cpc := D_SetStop, calls := cs\<rparr>))
      | E_Lock f \<Rightarrow>
          (if mutex s = None then Some (s\<lparr>mutex := Some Client, cpc := E_Push f\<rparr>)
           else None)
      | E_Push f \<Rightarrow> Some (s\<lparr>tasks := tasks s @ [f], cpc := E_Notify\<rparr>)
      | E_Notify \<Rightarrow> Some (s\<lparr>workers := notify_one k (workers s), cpc := E_Unlock\<rparr>)
      | E_Unlock \<Rightarrow> Some (s\<lparr>mutex := None, cpc := C_Idle\<rparr>)
      | D_SetStop \<Rightarrow> Some (s\<lparr>stop := True, cpc := D_Notify\<rparr>)
      | D_Notify \<Rightarrow> Some (s\<lparr>workers := notify_all (workers s), cpc := D_Join 0\<rparr>)
      | D_Join i \<Rightarrow>
          (if i < length (workers s)
           then (if \<not> joinable (workers s ! i) then Some (s\<lparr>cpc := C_Error\<rparr>)
                 else if pc (workers s ! i) = W_Done
                 then Some (s\<lparr>workers := (workers s)[i := (workers s ! i)\<lparr>joinable := False\<rparr>],
                              cpc := D_Join (Suc i)\<rparr>)
                 else None)
           else Some (s\<lparr>cpc := C_Idle\<rparr>))
      | C_Error \<Rightarrow> None)"

text \<open>
  The threads interleave: a schedule is a list of actions, a step of the client (with the
  choice its \<^verbatim>\<open>notify_one\<close> makes), a step of a worker, or a spurious wake-up of a
  blocked worker.
\<close>

datatype action = Cl nat | Wk nat | Spurious nat

definition step :: "action \<Rightarrow> state \<Rightarrow> state option" where
  "step a s =
     (case a of
        Cl k \<Rightarrow> client_step k s
      | Wk i \<Rightarrow> (if i < length (workers s) then worker_step i s else None)
      | Spurious i \<Rightarrow>
          (if i < length (workers s) \<and> pc (workers s ! i) = W_Blocked
           then Some (set_pc i W_Woken s) else None))"

fun run :: "action list \<Rightarrow> state \<Rightarrow> state option" where
  "run [] s = Some s"
| "run (a # as) s = (case step a s of None \<Rightarrow> None | Some s' \<Rightarrow> run as s')"

text \<open>The tasks of the \<^verbatim>\<open>enqueue\<close> calls of a program, in program order.\<close>

fun jobs_of :: "call list \<Rightarrow> job list" where
  "jobs_of [] = []"
| "jobs_of (Enqueue f # cs) = f # jobs_of cs"
| "jobs_of (Shutdown # cs) = jobs_of cs"

subsection \<open>Invariants of the pool\<close>

text \<open>
  The predicates below are proved to hold in every state the system reaches: who owns the
  mutex, where the submitted tasks are, which tasks are in the hands of a worker, what a
  worker has seen of the queue at each program point, and what the joins have done.
\<close>

text \<open>What a notification does to the vector of threads.\<close>

definition wakes :: "thread list \<Rightarrow> thread list \<Rightarrow> bool" where
  "wakes ws ws' \<longleftrightarrow>
     length ws' = length ws \<and>
     (\<forall>i<length ws. ws' ! i = ws ! i
        \<or> (pc (ws ! i) = W_Blocked \<and> ws' ! i = (ws ! i)\<lparr>pc := W_Woken\<rparr>))"

text \<open>
  The program points at which a worker owns the mutex, and those at which the client
  does.
\<close>

fun holds :: "wpc \<Rightarrow> bool" where
  "holds W_Pred = True"
| "holds W_Wait = True"
| "holds W_Check = True"
| "holds W_Front = True"
| "holds (W_Unlock task) = True"
| "holds W_Undefined = True"
| "holds _ = False"

fun client_holds :: "cpc \<Rightarrow> bool" where
  "client_holds (E_Push f) = True"
| "client_holds E_Notify = True"
| "client_holds E_Unlock = True"
| "client_holds _ = False"

text \<open>
  Mutual exclusion: the mutex is owned by exactly the threads that are at such a point.
\<close>

definition lock_inv :: "state \<Rightarrow> bool" where
  "lock_inv s \<longleftrightarrow>
     (\<forall>i<length (workers s). holds (pc (workers s ! i)) \<longleftrightarrow> mutex s = Some (Worker i))
     \<and> (client_holds (cpc s) \<longleftrightarrow> mutex s = Some Client)"

text \<open>
  The tasks the client has still to put into the queue: the one of the \<^verbatim>\<open>enqueue\<close> it is
  in, before its \<^verbatim>\<open>push_back\<close>, and those of the calls to come.
\<close>

definition pending :: "state \<Rightarrow> job list" where
  "pending s =
     (case cpc s of E_Lock f \<Rightarrow> [f] | E_Push f \<Rightarrow> [f] | _ \<Rightarrow> []) @ jobs_of (calls s)"

text \<open>
  The submitted tasks \<open>js\<close> are, in order: those taken from the queue, those in the queue,
  those still to be enqueued.
\<close>

definition hist_inv :: "job list \<Rightarrow> state \<Rightarrow> bool" where
  "hist_inv js s \<longleftrightarrow> dequeued s @ tasks s @ pending s = js"

text \<open>
  The task a worker has taken and not yet run, and those of all workers.
\<close>

definition held :: "thread \<Rightarrow> job list" where
  "held t = (case pc t of W_Unlock task \<Rightarrow> [task] | W_Exec task \<Rightarrow> [task] | _ \<Rightarrow> [])"

definition inflight :: "thread list \<Rightarrow> job list" where
  "inflight ws = concat (map held ws)"

text \<open>
  Every task taken from the queue has been run or is in the hands of a worker.
\<close>

definition flight_inv :: "state \<Rightarrow> bool" where
  "flight_inv s \<longleftrightarrow> mset (dequeued s) = mset (executed s) + mset (inflight (workers s))"

text \<open>
  What a worker knows after the predicate: at line 45 the queue is not empty or the stop
  flag is set, at line 46 the queue is not empty; \<^verbatim>\<open>front()\<close> is never called on an empty
  deque.
\<close>

definition pc_inv :: "state \<Rightarrow> bool" where
  "pc_inv s \<longleftrightarrow>
     (\<forall>i<length (workers s).
        (pc (workers s ! i) = W_Check \<longrightarrow> tasks s \<noteq> [] \<or> stop s)
      \<and> (pc (workers s ! i) = W_Front \<longrightarrow> tasks s \<noteq> [])
      \<and> pc (workers s ! i) \<noteq> W_Undefined)"

text \<open>
  The program points of the destructor body (and the error state it can end in).
\<close>

fun in_shutdown :: "cpc \<Rightarrow> bool" where
  "in_shutdown D_SetStop = True"
| "in_shutdown D_Notify = True"
| "in_shutdown (D_Join i) = True"
| "in_shutdown C_Error = True"
| "in_shutdown _ = False"

text \<open>
  A thread that is no longer joinable has finished; the destructor at its k-th \<^verbatim>\<open>join\<close>
  has joined the workers before; and once the stop flag is set and the client is not in
  the destructor body, every worker has been joined.
\<close>

definition join_inv :: "state \<Rightarrow> bool" where
  "join_inv s \<longleftrightarrow>
     (\<forall>i<length (workers s). \<not> joinable (workers s ! i) \<longrightarrow> pc (workers s ! i) = W_Done)
     \<and> (\<forall>k. cpc s = D_Join k \<longrightarrow>
           (\<forall>i<k. i < length (workers s) \<longrightarrow> \<not> joinable (workers s ! i)))
     \<and> (stop s \<longrightarrow> in_shutdown (cpc s)
           \<or> (\<forall>i<length (workers s). \<not> joinable (workers s ! i)))"

text \<open>
  All of them together, for a client whose \<^verbatim>\<open>enqueue\<close> calls submit the tasks \<open>js\<close>.
\<close>

definition pool_inv :: "job list \<Rightarrow> state \<Rightarrow> bool" where
  "pool_inv js s \<longleftrightarrow> lock_inv s \<and> hist_inv js s \<and> flight_inv s \<and> pc_inv s \<and> join_inv s"

text \<open>
  A program that calls the destructor has set the stop flag, is about to, or has the call
  still to make.
\<close>

definition shut_inv :: "call list \<Rightarrow> state \<Rightarrow> bool" where
  "shut_inv cs s \<longleftrightarrow>
     (Shutdown \<in> set cs \<longrightarrow> stop s \<or> cpc s = D_SetStop \<or> Shutdown \<in> set (calls s))"

section \<open>Properties of the Mandelbrot renderers\<close>

declare mandel_loop.simps [simp del]

text \<open>Below the bound the increment of the counter does not overflow.\<close>

lemma sint_succ_below:
  fixes i m :: cint
  assumes "i <s m"
  shows "sint (i + 1) = sint i + 1"
proof -
  have "sint i < sint m" using assms by (simp add: word_sless_alt)
  moreover have "sint m < 2 ^ 31" using sint_lt [of m] by simp
  moreover have "- (2 ^ 31) \<le> sint i" using sint_ge [of i] by simp
  ultimately show ?thesis
    by (simp add: sint_word_ariths signed_take_bit_int_eq_self)
qed

text \<open>
  The loop started at \<open>(i, zr, zi)\<close> stops at a counter between \<open>i\<close> and the bound; every
  pair it went through satisfied the condition, and when it stops below the bound the pair
  it stops at does not.
\<close>

lemma mandel_loop_first_exit:
  "sint i \<le> sint m \<Longrightarrow>
     sint i \<le> sint (mandel_loop ops cr ci m i zr zi)
   \<and> sint (mandel_loop ops cr ci m i zr zi) \<le> sint m
   \<and> (\<forall>k < nat (sint (mandel_loop ops cr ci m i zr zi) - sint i).
         mandel_inside ops ((mandel_next ops cr ci ^^ k) (zr, zi)))
   \<and> (sint (mandel_loop ops cr ci m i zr zi) < sint m \<longrightarrow>
        \<not> mandel_inside ops
            ((mandel_next ops cr ci ^^ nat (sint (mandel_loop ops cr ci m i zr zi) - sint i))
               (zr, zi)))"
proof (induction ops cr ci m i zr zi rule: mandel_loop.induct)
  case (1 ops cr ci m i zr zi)
  show ?case
  proof (cases "mandel_cond ops m i zr zi")
    case True
    then have lt: "i <s m" and ins: "mandel_inside ops (zr, zi)"
      by (simp_all add: mandel_cond_def mandel_inside_def)
    have stp: "sint (i + 1) = sint i + 1" by (rule sint_succ_below [OF lt])
    have le: "sint (i + 1) \<le> sint m" using lt stp by (simp add: word_sless_alt)
    let ?z = "mandel_next ops cr ci (zr, zi)"
    let ?r = "mandel_loop ops cr ci m (i + 1) (fst ?z) (snd ?z)"
    have r: "mandel_loop ops cr ci m i zr zi = ?r"
      using True by (subst mandel_loop.simps) (simp add: Let_def mandel_next_def)
    have ih: "sint (i + 1) \<le> sint ?r \<and> sint ?r \<le> sint m
        \<and> (\<forall>k < nat (sint ?r - sint (i + 1)).
              mandel_inside ops ((mandel_next ops cr ci ^^ k) (fst ?z, snd ?z)))
        \<and> (sint ?r < sint m \<longrightarrow>
             \<not> mandel_inside ops
                 ((mandel_next ops cr ci ^^ nat (sint ?r - sint (i + 1))) (fst ?z, snd ?z)))"
    proof -
      have fz: "d_add ops (d_sub ops (d_mul ops zr zr) (d_mul ops zi zi)) cr = fst ?z"
        and sz: "d_add ops (d_mul ops (d_mul ops (d_two ops) zr) zi) ci = snd ?z"
        by (simp_all add: mandel_next_def)
      from "1.IH" [OF True refl refl le] show ?thesis
        unfolding fz sz .
    qed
    have "sint i + 1 \<le> sint ?r" using ih stp by simp
    then have d: "nat (sint ?r - sint i) = Suc (nat (sint ?r - sint (i + 1)))"
      unfolding stp by arith
    have sh: "(mandel_next ops cr ci ^^ k) (fst ?z, snd ?z)
        = (mandel_next ops cr ci ^^ Suc k) (zr, zi)" for k
      by (simp add: funpow_swap1)
    have a: "\<forall>k < nat (sint ?r - sint i). mandel_inside ops ((mandel_next ops cr ci ^^ k) (zr, zi))"
    proof (intro allI impI)
      fix k assume k: "k < nat (sint ?r - sint i)"
      show "mandel_inside ops ((mandel_next ops cr ci ^^ k) (zr, zi))"
      proof (cases k)
        case 0
        then show ?thesis using ins by simp
      next
        case (Suc k')
        then have "k' < nat (sint ?r - sint (i + 1))" using k d by simp
        then have "mandel_inside ops ((mandel_next ops cr ci ^^ k') (fst ?z, snd ?z))"
          using ih by blast
        then show ?thesis unfolding sh Suc .
      qed
    qed
    have b: "sint ?r < sint m \<longrightarrow>
        \<not> mandel_inside ops ((mandel_next ops cr ci ^^ nat (sint ?r - sint i)) (zr, zi))"
      using ih unfolding d sh by blast
    show ?thesis unfolding r using ih a b stp by simp
  next
    case False
    then have r: "mandel_loop ops cr ci m i zr zi = i"
      by (subst mandel_loop.simps) simp
    have "sint i < sint m \<longrightarrow> \<not> mandel_inside ops (zr, zi)"
      using False by (simp add: mandel_cond_def mandel_inside_def word_sless_alt)
    then show ?thesis unfolding r using "1.prems" by simp
  qed
qed

text \<open>
  C8: for every \<open>cr\<close>, \<open>ci\<close> and every \<open>max_iterations \<ge> 0\<close>, \<open>findMandelBrot\<close> returns (the
  model is a total function, its loop terminates on the measure
  \<open>max_iterations - i\<close>); the loop counter, which counts the iterations, ends between \<open>0\<close>
  and \<open>max_iterations\<close>; and the result is \<open>-1\<close> or an \<open>n\<close> with
  \<open>0 \<le> n < max_iterations\<close>. It is \<open>-1\<close> exactly when the iteration budget is exhausted:
  the counter has reached \<open>max_iterations\<close>, that is, \<open>zr * zr + zi * zi < 4.0\<close> held
  before each of the \<open>max_iterations\<close> iterations. Otherwise it is the first iteration
  count \<open>n\<close> at which \<open>zr * zr + zi * zi < 4.0\<close> no longer holds. This holds whatever the
  floating-point operations compute.
\<close>

theorem findMandelBrot_terminates_in_range:
  assumes "0 \<le>s max_iterations"
  shows "0 \<le> sint (mandel_loop ops cr ci max_iterations 0 (d_zero ops) (d_zero ops))
       \<and> sint (mandel_loop ops cr ci max_iterations 0 (d_zero ops) (d_zero ops))
           \<le> sint max_iterations
       \<and> (findMandelBrot ops cr ci max_iterations = - 1
           \<or> (0 \<le>s findMandelBrot ops cr ci max_iterations
               \<and> findMandelBrot ops cr ci max_iterations <s max_iterations))
       \<and> (findMandelBrot ops cr ci max_iterations = - 1 \<longleftrightarrow>
            mandel_loop ops cr ci max_iterations 0 (d_zero ops) (d_zero ops) = max_iterations)
       \<and> (findMandelBrot ops cr ci max_iterations = - 1 \<longleftrightarrow>
            (\<forall>k < nat (sint max_iterations). mandel_inside ops (mandel_orbit ops cr ci k)))
       \<and> (findMandelBrot ops cr ci max_iterations \<noteq> - 1 \<longrightarrow>
            findMandelBrot ops cr ci max_iterations
              = mandel_loop ops cr ci max_iterations 0 (d_zero ops) (d_zero ops)
          \<and> \<not> mandel_inside ops
               (mandel_orbit ops cr ci (nat (sint (findMandelBrot ops cr ci max_iterations))))
          \<and> (\<forall>k < nat (sint (findMandelBrot ops cr ci max_iterations)).
                mandel_inside ops (mandel_orbit ops cr ci k)))"
proof -
  let ?i = "mandel_loop ops cr ci max_iterations 0 (d_zero ops) (d_zero ops)"
  let ?r = "findMandelBrot ops cr ci max_iterations"
  have m0: "0 \<le> sint max_iterations" using assms by (simp add: word_sle_eq)
  then have "sint (0 :: cint) \<le> sint max_iterations" by simp
  from mandel_loop_first_exit [OF this, of ops cr ci "d_zero ops" "d_zero ops"]
  have lo: "0 \<le> sint ?i" and hi: "sint ?i \<le> sint max_iterations"
    and ins: "\<And>k. k < nat (sint ?i) \<Longrightarrow> mandel_inside ops (mandel_orbit ops cr ci k)"
    and out: "sint ?i < sint max_iterations \<Longrightarrow>
        \<not> mandel_inside ops (mandel_orbit ops cr ci (nat (sint ?i)))"
    by (simp_all add: mandel_orbit_def)
  have ne: "?i \<noteq> - 1" using lo by auto
  have r: "?r = (if sint max_iterations \<le> sint ?i then - 1 else ?i)"
    by (simp add: findMandelBrot_def Let_def word_sle_eq)
  have eq: "sint max_iterations \<le> sint ?i \<longleftrightarrow> ?i = max_iterations"
  proof
    assume "sint max_iterations \<le> sint ?i"
    with hi have "sint ?i = sint max_iterations" by simp
    then show "?i = max_iterations" by (rule signed_word_eqI)
  qed simp
  have c1: "?r = - 1 \<longleftrightarrow> ?i = max_iterations"
    using r ne eq by auto
  have c2: "?r = - 1 \<longleftrightarrow> (\<forall>k < nat (sint max_iterations). mandel_inside ops (mandel_orbit ops cr ci k))"
  proof
    assume "?r = - 1"
    then have "?i = max_iterations" using c1 by simp
    then show "\<forall>k < nat (sint max_iterations). mandel_inside ops (mandel_orbit ops cr ci k)"
      using ins by auto
  next
    assume all: "\<forall>k < nat (sint max_iterations). mandel_inside ops (mandel_orbit ops cr ci k)"
    show "?r = - 1"
    proof (rule ccontr)
      assume "?r \<noteq> - 1"
      then have lt: "sint ?i < sint max_iterations" using r by (auto split: if_splits)
      then have "nat (sint ?i) < nat (sint max_iterations)" using lo by simp
      with all out [OF lt] show False by blast
    qed
  qed
  have c3: "?r = ?i \<and> \<not> mandel_inside ops (mandel_orbit ops cr ci (nat (sint ?r)))
      \<and> (\<forall>k < nat (sint ?r). mandel_inside ops (mandel_orbit ops cr ci k))"
    if "?r \<noteq> - 1"
  proof -
    from that have lt: "sint ?i < sint max_iterations" and ri: "?r = ?i"
      using r by (auto split: if_splits)
    show ?thesis unfolding ri using out [OF lt] ins by blast
  qed
  have c0: "?r = - 1 \<or> (0 \<le>s ?r \<and> ?r <s max_iterations)"
    using r lo by (auto simp: word_sle_eq word_sless_alt)
  from lo hi c0 c1 c2 c3 show ?thesis by blast
qed

theorem findMandelBrot_terminates_in_range_witness:
  "(0 :: cint) \<le>s 5
   \<and> findMandelBrot real_ops 3 0 5 = 1
   \<and> mandel_orbit real_ops 3 0 0 = (0, 0)
   \<and> mandel_orbit real_ops 3 0 1 = (3, 0)
   \<and> mandel_inside real_ops (mandel_orbit real_ops 3 0 0)
   \<and> \<not> mandel_inside real_ops (mandel_orbit real_ops 3 0 1)
   \<and> 0 \<le> sint (mandel_loop real_ops 3 0 5 0 (d_zero real_ops) (d_zero real_ops))
   \<and> sint (mandel_loop real_ops 3 0 5 0 (d_zero real_ops) (d_zero real_ops)) \<le> sint (5 :: cint)
   \<and> (findMandelBrot real_ops 3 0 5 = - 1
       \<or> (0 \<le>s findMandelBrot real_ops 3 0 5 \<and> findMandelBrot real_ops 3 0 5 <s 5))"
proof -
  have h: "(0 :: cint) \<le>s 5" by (simp add: word_sle_eq)
  have v: "findMandelBrot real_ops 3 0 5 = 1"
    by (simp add: findMandelBrot_def real_ops_def mandel_cond_def mandel_loop.simps
        word_sless_alt word_sle_eq)
  have o: "mandel_orbit real_ops 3 0 0 = (0, 0)" "mandel_orbit real_ops 3 0 1 = (3, 0)"
    by (simp_all add: mandel_orbit_def mandel_next_def real_ops_def)
  have n: "nat (sint (1 :: cint)) = 1" by simp
  from findMandelBrot_terminates_in_range [OF h, of real_ops 3 0]
  have "\<not> mandel_inside real_ops (mandel_orbit real_ops 3 0 1)"
    and "\<forall>k<1. mandel_inside real_ops (mandel_orbit real_ops 3 0 k)"
    and "0 \<le> sint (mandel_loop real_ops 3 0 5 0 (d_zero real_ops) (d_zero real_ops))"
    and "sint (mandel_loop real_ops 3 0 5 0 (d_zero real_ops) (d_zero real_ops)) \<le> sint (5 :: cint)"
    unfolding v n by simp_all
  with h v o show ?thesis by (simp add: word_sle_eq word_sless_alt)
qed

text \<open>Bridging lemmas between \<^verbatim>\<open>int\<close> values and their integers.\<close>

lemma sint_wi: "- (2 ^ 31) \<le> k \<Longrightarrow> k < 2 ^ 31 \<Longrightarrow> sint (word_of_int k :: cint) = k"
  by (simp add: sint_sbintrunc' signed_take_bit_int_eq_self)

lemma cint_cases:
  fixes n :: cint
  assumes "0 \<le>s n" "n \<le>s 126"
  obtains k where "n = word_of_int k" "0 \<le> k" "k \<le> 126"
proof
  show "n = word_of_int (sint n)" by simp
  show "0 \<le> sint n" using assms(1) by (simp add: word_sle_eq)
  show "sint n \<le> 126" using assms(2) by (simp add: word_sle_eq)
qed

lemma uchar_ok:
  assumes "0 \<le> v" "v \<le> 255"
  shows "0 \<le>s (word_of_int v :: cint) \<and> (word_of_int v :: cint) \<le>s 255
     \<and> uint (to_uchar (word_of_int v)) = sint (word_of_int v :: cint)"
proof -
  have s: "sint (word_of_int v :: cint) = v" using assms by (simp add: sint_wi)
  have u: "uint (word_of_int v :: cint) = v" using assms
    by (simp add: uint_word_of_int take_bit_int_eq_self)
  have "uint (to_uchar (word_of_int v)) = v"
    unfolding to_uchar_def using assms
    by (simp add: unsigned_ucast_eq u take_bit_int_eq_self)
  then show ?thesis using assms by (simp add: word_sle_eq s)
qed

text \<open>The values \<open>getColor\<close> computes for \<open>0 \<le> n \<le> 126\<close>, on the integers.\<close>

lemma getColor_of_int:
  assumes "0 \<le> k" "k \<le> 126"
  shows "getColor (word_of_int k) =
     (if k = 0 then (word_of_int 255, word_of_int 0, word_of_int 0)
      else if k < 16 then (word_of_int (16 * (16 - k)), word_of_int 0, word_of_int (16 * k - 1))
      else if k < 32
        then (word_of_int 0, word_of_int (16 * (k - 16)), word_of_int (16 * (32 - k) - 1))
      else if k < 64
        then (word_of_int (8 * (k - 32)), word_of_int (8 * (64 - k) - 1), word_of_int 0)
      else (word_of_int (255 - (k - 64) * 4), word_of_int 0, word_of_int 0))"
proof -
  have s: "sint (word_of_int k :: cint) = k" using assms by (simp add: sint_wi)
  have z: "(word_of_int k :: cint) = 0 \<longleftrightarrow> k = 0"
  proof
    assume "word_of_int k = (0::cint)"
    then have "sint (word_of_int k :: cint) = 0" by simp
    with s show "k = 0" by simp
  qed simp
  have m: "(word_of_int k :: cint) \<noteq> - 1"
  proof
    assume "word_of_int k = (- 1::cint)"
    then have "sint (word_of_int k :: cint) = - 1" by simp
    with s assms show False by simp
  qed
  show ?thesis
    unfolding getColor_def using assms
    by (simp add: z m word_sless_alt s)
qed

text \<open>
  C9: for \<open>n = -1\<close> or \<open>0 \<le> n \<le> 126\<close>, the values \<open>findMandelBrot\<close> produces with
  \<open>max_iterations = 127\<close>, each component of \<open>getColor n\<close> lies in \<open>[0, 255]\<close>, and its
  conversion to \<^verbatim>\<open>unsigned char\<close> keeps its value.
\<close>

theorem getColor_components_fit_uchar:
  assumes "n = - 1 \<or> (0 \<le>s n \<and> n \<le>s 126)"
  shows "case getColor n of (r, g, b) \<Rightarrow>
           (0 \<le>s r \<and> r \<le>s 255 \<and> uint (to_uchar r) = sint r)
         \<and> (0 \<le>s g \<and> g \<le>s 255 \<and> uint (to_uchar g) = sint g)
         \<and> (0 \<le>s b \<and> b \<le>s 255 \<and> uint (to_uchar b) = sint b)"
proof (cases "n = - 1")
  case True
  then show ?thesis by (simp add: getColor_def to_uchar_def word_sle_eq)
next
  case False
  with assms have "0 \<le>s n" "n \<le>s 126" by simp_all
  then obtain k where k: "n = word_of_int k" "0 \<le> k" "k \<le> 126" by (rule cint_cases)
  have z: "0 \<le>s (word_of_int 0 :: cint) \<and> (word_of_int 0 :: cint) \<le>s 255
     \<and> uint (to_uchar (word_of_int 0)) = sint (word_of_int 0 :: cint)"
    by (rule uchar_ok) simp_all
  have f: "0 \<le>s (word_of_int 255 :: cint) \<and> (word_of_int 255 :: cint) \<le>s 255
     \<and> uint (to_uchar (word_of_int 255)) = sint (word_of_int 255 :: cint)"
    by (rule uchar_ok) simp_all
  consider "k = 0" | "0 < k" "k < 16" | "16 \<le> k" "k < 32" | "32 \<le> k" "k < 64" | "64 \<le> k"
    using k(2) by linarith
  then show ?thesis
  proof cases
    case 1
    then show ?thesis unfolding k(1) getColor_of_int [OF k(2,3)] using z f
      by (simp only: simp_thms if_True split_conv)
  next
    case 2
    have a: "0 \<le> 16 * (16 - k)" "16 * (16 - k) \<le> 255" "0 \<le> 16 * k - 1" "16 * k - 1 \<le> 255"
      using 2 by simp_all
    have ne: "k \<noteq> 0" using 2 by simp
    show ?thesis unfolding k(1) getColor_of_int [OF k(2,3)]
      using z uchar_ok [OF a(1,2)] uchar_ok [OF a(3,4)] ne 2(2)
      by (simp only: if_True if_False split_conv)
  next
    case 3
    have a: "0 \<le> 16 * (k - 16)" "16 * (k - 16) \<le> 255"
        "0 \<le> 16 * (32 - k) - 1" "16 * (32 - k) - 1 \<le> 255"
      using 3 by simp_all
    have ne: "k \<noteq> 0" "\<not> k < 16" using 3 by simp_all
    show ?thesis unfolding k(1) getColor_of_int [OF k(2,3)]
      using z uchar_ok [OF a(1,2)] uchar_ok [OF a(3,4)] ne 3(2)
      by (simp only: if_True if_False split_conv)
  next
    case 4
    have a: "0 \<le> 8 * (k - 32)" "8 * (k - 32) \<le> 255"
        "0 \<le> 8 * (64 - k) - 1" "8 * (64 - k) - 1 \<le> 255"
      using 4 by simp_all
    have ne: "k \<noteq> 0" "\<not> k < 16" "\<not> k < 32" using 4 by simp_all
    show ?thesis unfolding k(1) getColor_of_int [OF k(2,3)]
      using z uchar_ok [OF a(1,2)] uchar_ok [OF a(3,4)] ne 4(2)
      by (simp only: if_True if_False split_conv)
  next
    case 5
    have a: "0 \<le> 255 - (k - 64) * 4" "255 - (k - 64) * 4 \<le> 255"
      using 5 k(3) by simp_all
    have ne: "k \<noteq> 0" "\<not> k < 16" "\<not> k < 32" "\<not> k < 64" using 5 by simp_all
    show ?thesis unfolding k(1) getColor_of_int [OF k(2,3)]
      using z uchar_ok [OF a(1,2)] ne
      by (simp only: if_True if_False split_conv)
  qed
qed

theorem getColor_components_fit_uchar_witness:
  "((126 :: cint) = - 1 \<or> (0 \<le>s (126 :: cint) \<and> (126 :: cint) \<le>s 126))
   \<and> getColor 126 = (7, 0, 0)
   \<and> (case getColor 126 of (r, g, b) \<Rightarrow>
           (0 \<le>s r \<and> r \<le>s 255 \<and> uint (to_uchar r) = sint r)
         \<and> (0 \<le>s g \<and> g \<le>s 255 \<and> uint (to_uchar g) = sint g)
         \<and> (0 \<le>s b \<and> b \<le>s 255 \<and> uint (to_uchar b) = sint b))"
proof -
  have h: "(126 :: cint) = - 1 \<or> (0 \<le>s (126 :: cint) \<and> (126 :: cint) \<le>s 126)"
    by (simp add: word_sle_eq)
  have v: "getColor 126 = (7, 0, 0)"
    by (simp add: getColor_def word_sless_alt)
  from h v getColor_components_fit_uchar [OF h] show ?thesis by blast
qed

lemma main_ranges_1600_4:
  "main_ranges 1600 4 = [(0, 400), (400, 800), (800, 1200), (1200, 1600)]"
  by (simp add: main_ranges_def minX_def maxX_def part_def upt_conv_Cons)

lemma upto_1599_split:
  "[0..1599] = [0..399] @ [400..799] @ [800..1199] @ [1200..(1599::int)]"
  using upto_split1 [of 0 400 1599] upto_split1 [of 400 800 1599] upto_split1 [of 800 1200 1599]
  by (simp del: upto_rec_numeral)

text \<open>
  C10: with \<open>width = 1600\<close> and \<open>threads = 4\<close> the four threads get the ranges
  \<open>[400 i, 400 (i + 1))\<close>; the columns they write, one thread after the other, are the
  columns \<open>0, 1, ..., 1599\<close>, each once: the ranges are pairwise disjoint and cover
  \<open>[0, width)\<close>.
\<close>

theorem main_ranges_partition_columns:
  "main_ranges 1600 4 = [(0, 400), (400, 800), (800, 1200), (1200, 1600)]
   \<and> concat (map (\<lambda>(lo, hi). mandelbrot_columns lo hi) (main_ranges 1600 4)) = [0..1599]
   \<and> distinct (concat (map (\<lambda>(lo, hi). mandelbrot_columns lo hi) (main_ranges 1600 4)))
   \<and> set (concat (map (\<lambda>(lo, hi). mandelbrot_columns lo hi) (main_ranges 1600 4)))
       = {0 ..< 1600}"
proof -
  have c: "concat (map (\<lambda>(lo, hi). mandelbrot_columns lo hi) (main_ranges 1600 4)) = [0..1599]"
    by (simp add: main_ranges_1600_4 mandelbrot_columns_def upto_1599_split
        del: upto_rec_numeral)
  have "set [0..1599] = {0 ..< (1600::int)}" by (auto simp del: upto_rec_numeral)
  then show ?thesis
    using c main_ranges_1600_4 by (simp del: upto_rec_numeral)
qed

section \<open>Properties of the thread pool\<close>

lemma set_pc_simps [simp]:
  "tasks (set_pc i p s) = tasks s"
  "mutex (set_pc i p s) = mutex s"
  "stop (set_pc i p s) = stop s"
  "cpc (set_pc i p s) = cpc s"
  "calls (set_pc i p s) = calls s"
  "dequeued (set_pc i p s) = dequeued s"
  "executed (set_pc i p s) = executed s"
  "workers (set_pc i p s) = (workers s)[i := (workers s ! i)\<lparr>pc := p\<rparr>]"
  by (simp_all add: set_pc_def)

lemma blocked_mem: "i \<in> set (blocked ws) \<longleftrightarrow> i < length ws \<and> pc (ws ! i) = W_Blocked"
  by (auto simp: blocked_def)

lemma wakes_notify_one: "wakes ws (notify_one k ws)"
proof (cases "blocked ws")
  case Nil
  then show ?thesis by (simp add: notify_one_def wakes_def)
next
  case (Cons b bs)
  let ?i = "(b # bs) ! (k mod length (b # bs))"
  have "?i \<in> set (blocked ws)"
    unfolding Cons by (rule nth_mem) simp
  then have i: "?i < length ws" "pc (ws ! ?i) = W_Blocked"
    by (simp_all add: blocked_mem)
  have "notify_one k ws = ws[?i := (ws ! ?i)\<lparr>pc := W_Woken\<rparr>]"
    by (simp add: notify_one_def Cons Let_def)
  then show ?thesis using i by (auto simp: wakes_def nth_list_update)
qed

lemma wakes_notify_all: "wakes ws (notify_all ws)"
  by (simp add: wakes_def notify_all_def)

lemma wakes_holds:
  assumes "wakes ws ws'" "i < length ws"
  shows "holds (pc (ws' ! i)) = holds (pc (ws ! i))"
proof -
  from assms have "ws' ! i = ws ! i
      \<or> (pc (ws ! i) = W_Blocked \<and> ws' ! i = (ws ! i)\<lparr>pc := W_Woken\<rparr>)"
    by (simp add: wakes_def)
  then show ?thesis by auto
qed

lemma lock_inv_worker:
  assumes inv: "lock_inv s" and i: "i < length (workers s)" and st: "worker_step i s = Some s'"
  shows "lock_inv s'"
proof -
  have hi: "holds (pc (workers s ! i)) \<longleftrightarrow> mutex s = Some (Worker i)"
    using inv i by (simp add: lock_inv_def)
  have cl: "client_holds (cpc s) \<longleftrightarrow> mutex s = Some Client"
    using inv by (simp add: lock_inv_def)
  have len: "length (workers s') = length (workers s)"
    using st unfolding worker_step_def
    by (cases "pc (workers s ! i)") (auto split: if_splits list.splits)
  have c: "client_holds (cpc s') \<longleftrightarrow> mutex s' = Some Client"
    using st hi cl unfolding worker_step_def
    by (cases "pc (workers s ! i)") (auto split: if_splits list.splits)
  have w: "holds (pc (workers s' ! j)) \<longleftrightarrow> mutex s' = Some (Worker j)"
    if j: "j < length (workers s)" for j
  proof -
    have hj: "holds (pc (workers s ! j)) \<longleftrightarrow> mutex s = Some (Worker j)"
      using inv j by (simp add: lock_inv_def)
    show ?thesis
      using st hi hj i j unfolding worker_step_def
      by (cases "pc (workers s ! i)")
         (auto simp: nth_list_update split: if_splits list.splits)
  qed
  show ?thesis unfolding lock_inv_def using c w len by simp
qed

lemma lock_inv_client:
  assumes inv: "lock_inv s" and st: "client_step k s = Some s'"
  shows "lock_inv s'"
proof -
  have cl: "client_holds (cpc s) \<longleftrightarrow> mutex s = Some Client"
    using inv by (simp add: lock_inv_def)
  have wk: "wakes (workers s) (workers s') \<or> 
     (\<exists>i. workers s' = (workers s)[i := (workers s ! i)\<lparr>joinable := False\<rparr>])"
    using st wakes_notify_one [of "workers s" k] wakes_notify_all [of "workers s"]
    unfolding client_step_def
    by (cases "cpc s") (auto simp: wakes_def split: if_splits list.splits call.splits)
  have len: "length (workers s') = length (workers s)"
    using wk by (auto simp: wakes_def)
  have c: "client_holds (cpc s') \<longleftrightarrow> mutex s' = Some Client"
    using st cl unfolding client_step_def
    by (cases "cpc s") (auto split: if_splits list.splits call.splits)
  have w: "holds (pc (workers s' ! j)) \<longleftrightarrow> mutex s' = Some (Worker j)"
    if j: "j < length (workers s)" for j
  proof -
    have hj: "holds (pc (workers s ! j)) \<longleftrightarrow> mutex s = Some (Worker j)"
      using inv j by (simp add: lock_inv_def)
    have p: "holds (pc (workers s' ! j)) = holds (pc (workers s ! j))"
      using wk
    proof
      assume "wakes (workers s) (workers s')"
      then show ?thesis using j by (rule wakes_holds)
    next
      assume "\<exists>i. workers s' = (workers s)[i := (workers s ! i)\<lparr>joinable := False\<rparr>]"
      then obtain i where "workers s' = (workers s)[i := (workers s ! i)\<lparr>joinable := False\<rparr>]" ..
      then show ?thesis using j by (cases "i = j") simp_all
    qed
    have "mutex s' = Some (Worker j) \<longleftrightarrow> mutex s = Some (Worker j)"
      using st cl unfolding client_step_def
      by (cases "cpc s") (auto split: if_splits list.splits call.splits)
    with p hj show ?thesis by simp
  qed
  show ?thesis unfolding lock_inv_def using c w len by simp
qed

lemma hist_inv_worker:
  assumes "hist_inv js s" "worker_step i s = Some s'"
  shows "hist_inv js s'"
  using assms unfolding worker_step_def hist_inv_def pending_def
  by (cases "pc (workers s ! i)") (auto split: if_splits list.splits)

lemma hist_inv_client:
  assumes "hist_inv js s" "client_step k s = Some s'"
  shows "hist_inv js s'"
  using assms unfolding client_step_def hist_inv_def pending_def
  by (cases "cpc s") (auto split: if_splits list.splits call.splits)

lemma inflight_update:
  "i < length ws \<Longrightarrow>
     mset (inflight (ws[i := t])) + mset (held (ws ! i)) = mset (inflight ws) + mset (held t)"
proof (induction ws arbitrary: i)
  case Nil
  then show ?case by simp
next
  case (Cons w ws)
  show ?case
  proof (cases i)
    case 0
    then show ?thesis by (simp add: inflight_def)
  next
    case (Suc n)
    with Cons.prems have "n < length ws" by simp
    from Cons.IH [OF this] Suc show ?thesis by (simp add: inflight_def)
  qed
qed

lemma inflight_same:
  assumes "length ws' = length ws" "\<And>i. i < length ws \<Longrightarrow> held (ws' ! i) = held (ws ! i)"
  shows "inflight ws' = inflight ws"
proof -
  have "map held ws' = map held ws"
    using assms by (intro nth_equalityI) simp_all
  then show ?thesis by (simp add: inflight_def)
qed

lemma wakes_inflight:
  assumes "wakes ws ws'"
  shows "inflight ws' = inflight ws"
proof (rule inflight_same)
  show "length ws' = length ws" using assms by (simp add: wakes_def)
next
  fix i assume "i < length ws"
  with assms have "ws' ! i = ws ! i
      \<or> (pc (ws ! i) = W_Blocked \<and> ws' ! i = (ws ! i)\<lparr>pc := W_Woken\<rparr>)"
    by (simp add: wakes_def)
  then show "held (ws' ! i) = held (ws ! i)" by (auto simp: held_def)
qed

lemma joined_inflight:
  "inflight (ws[i := (ws ! i)\<lparr>joinable := False\<rparr>]) = inflight ws"
proof (rule inflight_same)
  show "length (ws[i := (ws ! i)\<lparr>joinable := False\<rparr>]) = length ws" by simp
next
  fix j assume "j < length ws"
  then show "held (ws[i := (ws ! i)\<lparr>joinable := False\<rparr>] ! j) = held (ws ! j)"
    by (cases "i = j") (simp_all add: held_def)
qed

lemma held_inflight:
  "i < length ws \<Longrightarrow> mset (held (ws ! i)) \<subseteq># mset (inflight ws)"
proof (induction ws arbitrary: i)
  case Nil
  then show ?case by simp
next
  case (Cons w ws)
  show ?case
  proof (cases i)
    case 0
    then show ?thesis by (simp add: inflight_def)
  next
    case (Suc n)
    with Cons.prems have "n < length ws" by simp
    from Cons.IH [OF this] Suc show ?thesis
      by (simp add: inflight_def subset_mset.add_increasing)
  qed
qed

lemma inflight_set_pc:
  assumes "i < length ws"
  shows "mset (inflight (ws[i := t])) = mset (inflight ws) - mset (held (ws ! i)) + mset (held t)"
proof -
  let ?H = "mset (held (ws ! i))"
  have "mset (inflight ws) - ?H + ?H = mset (inflight ws)"
    using held_inflight [OF assms] by (rule subset_mset.diff_add)
  then have "(mset (inflight ws) - ?H + mset (held t)) + ?H = mset (inflight ws) + mset (held t)"
    by (simp add: add.commute add.left_commute)
  also have "\<dots> = mset (inflight (ws[i := t])) + ?H"
    by (rule inflight_update [OF assms, symmetric])
  finally show ?thesis by simp
qed

lemma flight_inv_worker:
  assumes inv: "flight_inv s" and i: "i < length (workers s)"
    and st: "worker_step i s = Some s'"
  shows "flight_inv s'"
proof -
  have hs: "mset (held (workers s ! i)) \<subseteq># mset (inflight (workers s))"
    by (rule held_inflight [OF i])
  show ?thesis
    using st inv hs i unfolding worker_step_def flight_inv_def
    by (cases "pc (workers s ! i)")
       (auto simp: held_def inflight_set_pc split: if_splits list.splits)
qed

lemma flight_inv_client:
  assumes inv: "flight_inv s" and st: "client_step k s = Some s'"
  shows "flight_inv s'"
  using assms wakes_inflight [OF wakes_notify_one [of "workers s" k]]
    wakes_inflight [OF wakes_notify_all [of "workers s"]]
  unfolding client_step_def flight_inv_def
  by (cases "cpc s") (auto simp: joined_inflight split: if_splits list.splits call.splits)

lemma worker_step_shape:
  assumes "worker_step i s = Some s'"
  shows "\<exists>p. workers s' = (workers s)[i := (workers s ! i)\<lparr>pc := p\<rparr>]"
    and "cpc s' = cpc s" and "stop s' = stop s" and "calls s' = calls s"
    and "pc (workers s ! i) \<noteq> W_Done"
  using assms unfolding worker_step_def
  by (cases "pc (workers s ! i)"; auto split: if_splits list.splits)+

lemma pc_inv_worker:
  assumes inv: "pc_inv s" and li: "lock_inv s" and i: "i < length (workers s)"
    and st: "worker_step i s = Some s'"
  shows "pc_inv s'"
proof -
  have hi: "holds (pc (workers s ! i)) \<longleftrightarrow> mutex s = Some (Worker i)"
    using li i by (simp add: lock_inv_def)
  have pi: "(pc (workers s ! i) = W_Check \<longrightarrow> tasks s \<noteq> [] \<or> stop s)
      \<and> (pc (workers s ! i) = W_Front \<longrightarrow> tasks s \<noteq> [])
      \<and> pc (workers s ! i) \<noteq> W_Undefined"
    using inv i by (simp add: pc_inv_def)
  have len: "length (workers s') = length (workers s)"
    using worker_step_shape(1) [OF st] by auto
  have w: "(pc (workers s' ! j) = W_Check \<longrightarrow> tasks s' \<noteq> [] \<or> stop s')
      \<and> (pc (workers s' ! j) = W_Front \<longrightarrow> tasks s' \<noteq> [])
      \<and> pc (workers s' ! j) \<noteq> W_Undefined"
    if j: "j < length (workers s)" for j
  proof -
    have hj: "holds (pc (workers s ! j)) \<longleftrightarrow> mutex s = Some (Worker j)"
      using li j by (simp add: lock_inv_def)
    have pj: "(pc (workers s ! j) = W_Check \<longrightarrow> tasks s \<noteq> [] \<or> stop s)
      \<and> (pc (workers s ! j) = W_Front \<longrightarrow> tasks s \<noteq> [])
      \<and> pc (workers s ! j) \<noteq> W_Undefined"
      using inv j by (simp add: pc_inv_def)
    show ?thesis
      using st hi hj pi pj i j unfolding worker_step_def
      by (cases "pc (workers s ! i)")
         (auto simp: nth_list_update split: if_splits list.splits)
  qed
  show ?thesis unfolding pc_inv_def using w len by simp
qed

lemma wakes_pc:
  assumes "wakes ws ws'" "i < length ws"
  shows "pc (ws' ! i) = pc (ws ! i) \<or> (pc (ws ! i) = W_Blocked \<and> pc (ws' ! i) = W_Woken)"
    and "joinable (ws' ! i) = joinable (ws ! i)"
proof -
  from assms have "ws' ! i = ws ! i
      \<or> (pc (ws ! i) = W_Blocked \<and> ws' ! i = (ws ! i)\<lparr>pc := W_Woken\<rparr>)"
    by (simp add: wakes_def)
  then show "pc (ws' ! i) = pc (ws ! i) \<or> (pc (ws ! i) = W_Blocked \<and> pc (ws' ! i) = W_Woken)"
    and "joinable (ws' ! i) = joinable (ws ! i)" by auto
qed

lemma client_step_shape:
  assumes "client_step k s = Some s'"
  shows "(wakes (workers s) (workers s') \<and> (\<forall>n. cpc s' = D_Join n \<longrightarrow> n = 0))
     \<or> (\<exists>i. cpc s = D_Join i \<and> i < length (workers s) \<and> pc (workers s ! i) = W_Done
           \<and> cpc s' = D_Join (Suc i)
           \<and> workers s' = (workers s)[i := (workers s ! i)\<lparr>joinable := False\<rparr>])"
    and "tasks s = [] \<or> tasks s' \<noteq> []" and "stop s \<longrightarrow> stop s'"
proof -
  show "(wakes (workers s) (workers s') \<and> (\<forall>n. cpc s' = D_Join n \<longrightarrow> n = 0))
     \<or> (\<exists>i. cpc s = D_Join i \<and> i < length (workers s) \<and> pc (workers s ! i) = W_Done
           \<and> cpc s' = D_Join (Suc i)
           \<and> workers s' = (workers s)[i := (workers s ! i)\<lparr>joinable := False\<rparr>])"
    using assms wakes_notify_one [of "workers s" k] wakes_notify_all [of "workers s"]
    unfolding client_step_def
    by (cases "cpc s") (auto simp: wakes_def split: if_splits list.splits call.splits)
  show "tasks s = [] \<or> tasks s' \<noteq> []" and "stop s \<longrightarrow> stop s'"
    using assms unfolding client_step_def
    by (cases "cpc s"; auto split: if_splits list.splits call.splits)+
qed

lemma pc_inv_client:
  assumes inv: "pc_inv s" and st: "client_step k s = Some s'"
  shows "pc_inv s'"
proof -
  note sh = client_step_shape [OF st]
  have len: "length (workers s') = length (workers s)"
    using sh(1) by (auto simp: wakes_def)
  have w: "(pc (workers s' ! j) = W_Check \<longrightarrow> tasks s' \<noteq> [] \<or> stop s')
      \<and> (pc (workers s' ! j) = W_Front \<longrightarrow> tasks s' \<noteq> [])
      \<and> pc (workers s' ! j) \<noteq> W_Undefined"
    if j: "j < length (workers s)" for j
  proof -
    have pj: "(pc (workers s ! j) = W_Check \<longrightarrow> tasks s \<noteq> [] \<or> stop s)
      \<and> (pc (workers s ! j) = W_Front \<longrightarrow> tasks s \<noteq> [])
      \<and> pc (workers s ! j) \<noteq> W_Undefined"
      using inv j by (simp add: pc_inv_def)
    have "pc (workers s' ! j) = pc (workers s ! j)
        \<or> (pc (workers s ! j) = W_Blocked \<and> pc (workers s' ! j) = W_Woken)"
      using sh(1)
    proof
      assume "wakes (workers s) (workers s') \<and> (\<forall>n. cpc s' = D_Join n \<longrightarrow> n = 0)"
      then have "wakes (workers s) (workers s')" ..
      then show ?thesis using j by (rule wakes_pc(1))
    next
      assume "\<exists>i. cpc s = D_Join i \<and> i < length (workers s) \<and> pc (workers s ! i) = W_Done
           \<and> cpc s' = D_Join (Suc i)
           \<and> workers s' = (workers s)[i := (workers s ! i)\<lparr>joinable := False\<rparr>]"
      then obtain i where "workers s' = (workers s)[i := (workers s ! i)\<lparr>joinable := False\<rparr>]"
        by blast
      then show ?thesis using j by (cases "i = j") simp_all
    qed
    with pj sh(2,3) show ?thesis by auto
  qed
  show ?thesis unfolding pc_inv_def using w len by simp
qed

lemma join_inv_worker:
  assumes inv: "join_inv s" and i: "i < length (workers s)"
    and st: "worker_step i s = Some s'"
  shows "join_inv s'"
proof -
  note sh = worker_step_shape [OF st]
  from sh(1) obtain p where ws: "workers s' = (workers s)[i := (workers s ! i)\<lparr>pc := p\<rparr>]" ..
  have ji: "joinable (workers s ! i)"
    using inv i sh(5) by (auto simp: join_inv_def)
  have jn: "joinable (workers s' ! j) = joinable (workers s ! j)" if "j < length (workers s)" for j
    using that ws by (cases "i = j") simp_all
  have pcj: "pc (workers s' ! j) = pc (workers s ! j)"
    if "j < length (workers s)" "j \<noteq> i" for j
    using that ws by simp
  have len: "length (workers s') = length (workers s)" using ws by simp
  have a: "\<forall>j<length (workers s'). \<not> joinable (workers s' ! j) \<longrightarrow> pc (workers s' ! j) = W_Done"
  proof (intro allI impI)
    fix j assume j: "j < length (workers s')" and nj: "\<not> joinable (workers s' ! j)"
    then have "j \<noteq> i" using ji jn len by auto
    then show "pc (workers s' ! j) = W_Done"
      using inv j nj jn pcj len by (auto simp: join_inv_def)
  qed
  have b: "\<forall>k. cpc s' = D_Join k \<longrightarrow>
           (\<forall>j<k. j < length (workers s') \<longrightarrow> \<not> joinable (workers s' ! j))"
    using inv sh(2) jn len by (auto simp: join_inv_def)
  have c: "stop s' \<longrightarrow> in_shutdown (cpc s')
           \<or> (\<forall>j<length (workers s'). \<not> joinable (workers s' ! j))"
    using inv sh(2,3) jn len by (auto simp: join_inv_def)
  show ?thesis unfolding join_inv_def using a b c by simp
qed

lemma join_inv_client:
  assumes inv: "join_inv s" and st: "client_step k s = Some s'"
  shows "join_inv s'"
proof -
  have a0: "\<And>j. j < length (workers s) \<Longrightarrow> \<not> joinable (workers s ! j)
      \<Longrightarrow> pc (workers s ! j) = W_Done"
    using inv by (simp add: join_inv_def)
  have b0: "\<And>n j. cpc s = D_Join n \<Longrightarrow> j < n \<Longrightarrow> j < length (workers s)
      \<Longrightarrow> \<not> joinable (workers s ! j)"
    using inv by (simp add: join_inv_def)
  have c0: "stop s \<Longrightarrow> in_shutdown (cpc s)
      \<or> (\<forall>j<length (workers s). \<not> joinable (workers s ! j))"
    using inv by (simp add: join_inv_def)
  note sh = client_step_shape [OF st]
  have len: "length (workers s') = length (workers s)"
    using sh(1) by (auto simp: wakes_def)
  show ?thesis
    using sh(1)
  proof
    assume "wakes (workers s) (workers s') \<and> (\<forall>n. cpc s' = D_Join n \<longrightarrow> n = 0)"
    then have wk: "wakes (workers s) (workers s')"
      and z: "\<And>n. cpc s' = D_Join n \<Longrightarrow> n = 0" by simp_all
    have jn: "joinable (workers s' ! j) = joinable (workers s ! j)"
      if "j < length (workers s)" for j
      using wk that by (rule wakes_pc(2))
    have pcj: "pc (workers s' ! j) = pc (workers s ! j)
        \<or> (pc (workers s ! j) = W_Blocked \<and> pc (workers s' ! j) = W_Woken)"
      if "j < length (workers s)" for j
      using wk that by (rule wakes_pc(1))
    have a: "\<forall>j<length (workers s'). \<not> joinable (workers s' ! j)
        \<longrightarrow> pc (workers s' ! j) = W_Done"
    proof (intro allI impI)
      fix j assume j: "j < length (workers s')" and nj: "\<not> joinable (workers s' ! j)"
      then have "pc (workers s ! j) = W_Done" using a0 [of j] jn len by simp
      with pcj [of j] j len show "pc (workers s' ! j) = W_Done" by auto
    qed
    have b: "\<forall>n. cpc s' = D_Join n \<longrightarrow>
           (\<forall>j<n. j < length (workers s') \<longrightarrow> \<not> joinable (workers s' ! j))"
      using z by auto
    have c: "stop s' \<longrightarrow> in_shutdown (cpc s')
           \<or> (\<forall>j<length (workers s'). \<not> joinable (workers s' ! j))"
      using st b0 c0 jn len unfolding client_step_def
      by (cases "cpc s") (auto split: if_splits list.splits call.splits)
    show ?thesis unfolding join_inv_def using a b c by simp
  next
    assume "\<exists>i. cpc s = D_Join i \<and> i < length (workers s) \<and> pc (workers s ! i) = W_Done
           \<and> cpc s' = D_Join (Suc i)
           \<and> workers s' = (workers s)[i := (workers s ! i)\<lparr>joinable := False\<rparr>]"
    then obtain i where i: "cpc s = D_Join i" "i < length (workers s)"
        "pc (workers s ! i) = W_Done" "cpc s' = D_Join (Suc i)"
        "workers s' = (workers s)[i := (workers s ! i)\<lparr>joinable := False\<rparr>]"
      by blast
    have a: "\<forall>j<length (workers s'). \<not> joinable (workers s' ! j)
        \<longrightarrow> pc (workers s' ! j) = W_Done"
    proof (intro allI impI)
      fix j assume j: "j < length (workers s')" and nj: "\<not> joinable (workers s' ! j)"
      show "pc (workers s' ! j) = W_Done"
        using i a0 [of j] j nj by (cases "i = j") simp_all
    qed
    have b: "\<forall>n. cpc s' = D_Join n \<longrightarrow>
           (\<forall>j<n. j < length (workers s') \<longrightarrow> \<not> joinable (workers s' ! j))"
    proof (intro allI impI)
      fix n j assume "cpc s' = D_Join n" "j < n" "j < length (workers s')"
      then show "\<not> joinable (workers s' ! j)"
        using i b0 [of i j] by (cases "i = j") simp_all
    qed
    have c: "stop s' \<longrightarrow> in_shutdown (cpc s')
           \<or> (\<forall>j<length (workers s'). \<not> joinable (workers s' ! j))"
      using i(4) by simp
    show ?thesis unfolding join_inv_def using a b c by simp
  qed
qed

lemma wakes_spurious:
  assumes "i < length ws" "pc (ws ! i) = W_Blocked"
  shows "wakes ws (ws[i := (ws ! i)\<lparr>pc := W_Woken\<rparr>])"
  using assms by (auto simp: wakes_def nth_list_update)

lemma pool_inv_wakes:
  assumes inv: "pool_inv js s" and wk: "wakes (workers s) ws'"
  shows "pool_inv js (s\<lparr>workers := ws'\<rparr>)"
proof -
  have len: "length ws' = length (workers s)" using wk by (simp add: wakes_def)
  have l: "lock_inv (s\<lparr>workers := ws'\<rparr>)"
    using inv wakes_holds [OF wk] len by (simp add: pool_inv_def lock_inv_def)
  have h: "hist_inv js (s\<lparr>workers := ws'\<rparr>)"
    using inv by (simp add: pool_inv_def hist_inv_def pending_def)
  have f: "flight_inv (s\<lparr>workers := ws'\<rparr>)"
    using inv wakes_inflight [OF wk] by (simp add: pool_inv_def flight_inv_def)
  have p: "pc_inv (s\<lparr>workers := ws'\<rparr>)"
    unfolding pc_inv_def
  proof (intro allI impI)
    fix i assume "i < length (workers (s\<lparr>workers := ws'\<rparr>))"
    then have i: "i < length (workers s)" using len by simp
    from inv i have "(pc (workers s ! i) = W_Check \<longrightarrow> tasks s \<noteq> [] \<or> stop s)
      \<and> (pc (workers s ! i) = W_Front \<longrightarrow> tasks s \<noteq> [])
      \<and> pc (workers s ! i) \<noteq> W_Undefined"
      by (simp add: pool_inv_def pc_inv_def)
    with wakes_pc(1) [OF wk i]
    show "(pc (workers (s\<lparr>workers := ws'\<rparr>) ! i) = W_Check
          \<longrightarrow> tasks (s\<lparr>workers := ws'\<rparr>) \<noteq> [] \<or> stop (s\<lparr>workers := ws'\<rparr>))
      \<and> (pc (workers (s\<lparr>workers := ws'\<rparr>) ! i) = W_Front \<longrightarrow> tasks (s\<lparr>workers := ws'\<rparr>) \<noteq> [])
      \<and> pc (workers (s\<lparr>workers := ws'\<rparr>) ! i) \<noteq> W_Undefined"
      by auto
  qed
  have j0: "join_inv s" using inv by (simp add: pool_inv_def)
  have a: "\<not> joinable (ws' ! i) \<longrightarrow> pc (ws' ! i) = W_Done" if i: "i < length (workers s)" for i
  proof
    assume "\<not> joinable (ws' ! i)"
    then have "\<not> joinable (workers s ! i)" using wakes_pc(2) [OF wk i] by simp
    then have "pc (workers s ! i) = W_Done" using j0 i by (simp add: join_inv_def)
    with wakes_pc(1) [OF wk i] show "pc (ws' ! i) = W_Done" by auto
  qed
  have j: "join_inv (s\<lparr>workers := ws'\<rparr>)"
    using j0 a len wakes_pc(2) [OF wk] by (simp add: join_inv_def)
  show ?thesis unfolding pool_inv_def using l h f p j by simp
qed

lemma pool_inv_step:
  assumes inv: "pool_inv js s" and st: "step a s = Some s'"
  shows "pool_inv js s'"
proof (cases a)
  case (Cl k)
  then have "client_step k s = Some s'" using st by (simp add: step_def)
  then show ?thesis
    using inv lock_inv_client hist_inv_client flight_inv_client pc_inv_client join_inv_client
    unfolding pool_inv_def by blast
next
  case (Wk i)
  then have "i < length (workers s)" "worker_step i s = Some s'"
    using st by (simp_all add: step_def split: if_splits)
  then show ?thesis
    using inv lock_inv_worker hist_inv_worker flight_inv_worker pc_inv_worker join_inv_worker
    unfolding pool_inv_def by blast
next
  case (Spurious i)
  then have i: "i < length (workers s)" "pc (workers s ! i) = W_Blocked"
    and s': "s' = set_pc i W_Woken s"
    using st by (simp_all add: step_def split: if_splits)
  show ?thesis
    unfolding s' set_pc_def by (rule pool_inv_wakes [OF inv wakes_spurious [OF i]])
qed

lemma pool_inv_run:
  "pool_inv js s \<Longrightarrow> run sched s = Some s' \<Longrightarrow> pool_inv js s'"
proof (induction sched arbitrary: s)
  case Nil
  then show ?case by simp
next
  case (Cons a sched)
  from Cons.prems(2) obtain s1 where s1: "step a s = Some s1" "run sched s1 = Some s'"
    by (auto split: option.splits)
  from Cons.IH [OF pool_inv_step [OF Cons.prems(1) s1(1)] s1(2)] show ?case .
qed

lemma start_workers_replicate: "start_workers n = replicate n new_thread"
  by (induction n) (simp_all add: replicate_append_same)

lemma start_simps [simp]:
  "workers (start n cs) = replicate (unat n) new_thread"
  "tasks (start n cs) = []"
  "mutex (start n cs) = None"
  "stop (start n cs) = False"
  "cpc (start n cs) = C_Idle"
  "calls (start n cs) = cs"
  "dequeued (start n cs) = []"
  "executed (start n cs) = []"
  by (simp_all add: start_def ThreadPool_def pool.extend_def start_workers_replicate)

lemma inflight_replicate: "inflight (replicate n new_thread) = []"
  by (induction n) (simp_all add: inflight_def held_def new_thread_def)

lemma new_thread_simps [simp]: "pc new_thread = W_Lock" "joinable new_thread = True"
  by (simp_all add: new_thread_def)

lemma pool_inv_start: "pool_inv (jobs_of cs) (start n cs)"
  unfolding pool_inv_def lock_inv_def hist_inv_def flight_inv_def pc_inv_def join_inv_def
  by (simp add: pending_def inflight_replicate)

lemma reachable_inv:
  "run sched (start n cs) = Some s \<Longrightarrow> pool_inv (jobs_of cs) s"
  by (rule pool_inv_run [OF pool_inv_start])

subsection \<open>What holds in every reachable state\<close>

text \<open>
  No worker ever calls \<^verbatim>\<open>front()\<close> on an empty deque: a worker that has passed the
  predicate holds the mutex, so the queue it saw non-empty is still non-empty at line 46.
\<close>

lemma front_never_on_empty_queue:
  assumes "run sched (start n cs) = Some s" "i < length (workers s)"
  shows "pc (workers s ! i) \<noteq> W_Undefined"
    and "pc (workers s ! i) = W_Front \<Longrightarrow> tasks s \<noteq> []"
  using reachable_inv [OF assms(1)] assms(2) by (simp_all add: pool_inv_def pc_inv_def)

text \<open>While the client holds the mutex inside \<^verbatim>\<open>enqueue\<close>, no step of a worker changes the queue.\<close>

lemma queue_untouched_under_client_lock:
  assumes r: "run sched (start n cs) = Some s" and m: "mutex s = Some Client"
    and st: "step (Wk i) s = Some s'"
  shows "tasks s' = tasks s"
proof -
  from st have i: "i < length (workers s)" and ws: "worker_step i s = Some s'"
    by (simp_all add: step_def split: if_splits)
  have "lock_inv s" using reachable_inv [OF r] by (simp add: pool_inv_def)
  then have "\<not> holds (pc (workers s ! i))" using i m by (simp add: lock_inv_def)
  then show ?thesis using ws unfolding worker_step_def
    by (cases "pc (workers s ! i)") (auto split: if_splits)
qed

lemma shut_inv_step:
  assumes inv: "shut_inv cs s" and st: "step a s = Some s'"
  shows "shut_inv cs s'"
proof (cases a)
  case (Cl k)
  then have "client_step k s = Some s'" using st by (simp add: step_def)
  then show ?thesis using inv unfolding client_step_def shut_inv_def
    by (cases "cpc s") (auto split: if_splits list.splits call.splits)
next
  case (Wk i)
  then have "worker_step i s = Some s'" using st by (simp add: step_def split: if_splits)
  from worker_step_shape(2,3,4) [OF this] inv show ?thesis by (simp add: shut_inv_def)
next
  case (Spurious i)
  then have "s' = set_pc i W_Woken s" using st by (simp add: step_def split: if_splits)
  with inv show ?thesis by (simp add: shut_inv_def)
qed

lemma shut_inv_run:
  "shut_inv cs s \<Longrightarrow> run sched s = Some s' \<Longrightarrow> shut_inv cs s'"
proof (induction sched arbitrary: s)
  case Nil
  then show ?case by simp
next
  case (Cons a sched)
  from Cons.prems(2) obtain s1 where s1: "step a s = Some s1" "run sched s1 = Some s'"
    by (auto split: option.splits)
  from Cons.IH [OF shut_inv_step [OF Cons.prems(1) s1(1)] s1(2)] show ?case .
qed

lemma shut_inv_start: "shut_inv cs (start n cs)"
  by (simp add: shut_inv_def)

lemma jobs_of_enqueues: "jobs_of (map Enqueue js @ [Shutdown]) = js"
  by (induction js) simp_all

lemma inflight_done:
  "(\<And>t. t \<in> set ws \<Longrightarrow> pc t = W_Done) \<Longrightarrow> inflight ws = []"
  by (induction ws) (simp_all add: inflight_def held_def)

lemma joined_all_done:
  assumes inv: "join_inv s" and "stop s" "\<not> in_shutdown (cpc s)"
  shows "\<forall>t\<in>set (workers s). pc t = W_Done \<and> \<not> joinable t"
proof
  fix t assume "t \<in> set (workers s)"
  then obtain i where i: "i < length (workers s)" "t = workers s ! i"
    by (auto simp: in_set_conv_nth)
  have "\<not> joinable (workers s ! i)" using inv assms(2,3) i(1) by (auto simp: join_inv_def)
  moreover from this have "pc (workers s ! i) = W_Done"
    using inv i(1) by (simp add: join_inv_def)
  ultimately show "pc t = W_Done \<and> \<not> joinable t" using i(2) by simp
qed

text \<open>
  The destructor writes the stop flag and notifies without taking the mutex. A worker that
  has found the predicate false and has not yet started to wait misses both: it then
  blocks, and the destructor blocks in \<^verbatim>\<open>join\<close>. Only a spurious wake-up of the worker
  lets the two go on.
\<close>

lemma destructor_can_block_forever:
  "run [Wk 0, Wk 0, Cl 0, Cl 0, Cl 0, Wk 0] (start 1 [Shutdown])
     = Some \<lparr>workers = [\<lparr>pc = W_Blocked, joinable = True\<rparr>], tasks = [], mutex = None,
              stop = True, cpc = D_Join 0, calls = [], dequeued = [], executed = []\<rparr>"
  "step (Cl k) \<lparr>workers = [\<lparr>pc = W_Blocked, joinable = True\<rparr>], tasks = [], mutex = None,
              stop = True, cpc = D_Join 0, calls = [], dequeued = [], executed = []\<rparr> = None"
  "step (Wk i) \<lparr>workers = [\<lparr>pc = W_Blocked, joinable = True\<rparr>], tasks = [], mutex = None,
              stop = True, cpc = D_Join 0, calls = [], dequeued = [], executed = []\<rparr> = None"
proof -
  show "run [Wk 0, Wk 0, Cl 0, Cl 0, Cl 0, Wk 0] (start 1 [Shutdown])
     = Some \<lparr>workers = [\<lparr>pc = W_Blocked, joinable = True\<rparr>], tasks = [], mutex = None,
              stop = True, cpc = D_Join 0, calls = [], dequeued = [], executed = []\<rparr>"
    by code_simp
  show "step (Cl k) \<lparr>workers = [\<lparr>pc = W_Blocked, joinable = True\<rparr>], tasks = [], mutex = None,
              stop = True, cpc = D_Join 0, calls = [], dequeued = [], executed = []\<rparr> = None"
    by (simp add: step_def client_step_def)
  show "step (Wk i) \<lparr>workers = [\<lparr>pc = W_Blocked, joinable = True\<rparr>], tasks = [], mutex = None,
              stop = True, cpc = D_Join 0, calls = [], dequeued = [], executed = []\<rparr> = None"
    by (simp add: step_def worker_step_def)
qed

subsection \<open>The worker loop\<close>

text \<open>
  C1 (amended): in every reachable state in which a worker has left \<^verbatim>\<open>cond.wait\<close> (it is at
  line 45), the worker returns, leaving the queue as it is, whenever the stop flag is
  set, whether or not the queue is empty; when the stop flag is not set the queue is not
  empty, and the worker removes its front task and keeps it to run it.
\<close>

theorem worker_after_wake:
  assumes r: "run sched (start n cs) = Some s"
    and i: "i < length (workers s)" and c: "pc (workers s ! i) = W_Check"
  shows "(stop s \<longrightarrow> step (Wk i) s = Some (set_pc i W_Done (s\<lparr>mutex := None\<rparr>)))
       \<and> (\<not> stop s \<longrightarrow>
            (\<exists>task rest. tasks s = task # rest
               \<and> run [Wk i, Wk i] s
                  = Some (set_pc i (W_Unlock task)
                           (s\<lparr>tasks := rest, dequeued := dequeued s @ [task]\<rparr>))))"
proof -
  have a: "stop s \<longrightarrow> step (Wk i) s = Some (set_pc i W_Done (s\<lparr>mutex := None\<rparr>))"
    using i c by (simp add: step_def worker_step_def)
  have b: "\<exists>task rest. tasks s = task # rest
               \<and> run [Wk i, Wk i] s
                  = Some (set_pc i (W_Unlock task)
                           (s\<lparr>tasks := rest, dequeued := dequeued s @ [task]\<rparr>))"
    if ns: "\<not> stop s"
  proof -
    have "pc_inv s" using reachable_inv [OF r] by (simp add: pool_inv_def)
    then have "tasks s \<noteq> []" using i c ns by (auto simp: pc_inv_def)
    then obtain task rest where t: "tasks s = task # rest" by (cases "tasks s") auto
    have "run [Wk i, Wk i] s
        = Some (set_pc i (W_Unlock task) (s\<lparr>tasks := rest, dequeued := dequeued s @ [task]\<rparr>))"
      using i c ns t by (simp add: step_def worker_step_def set_pc_def)
    with t show ?thesis by blast
  qed
  from a b show ?thesis by blast
qed

theorem worker_after_wake_witness:
  "run [Cl 0, Cl 0, Cl 0, Cl 0, Cl 0, Wk 0, Wk 0] (start 1 [Enqueue 7])
     = Some \<lparr>workers = [\<lparr>pc = W_Check, joinable = True\<rparr>], tasks = [7], mutex = Some (Worker 0),
      stop = False, cpc = C_Idle, calls = [], dequeued = [], executed = []\<rparr>
   \<and> run [Wk 0, Wk 0]
       \<lparr>workers = [\<lparr>pc = W_Check, joinable = True\<rparr>], tasks = [7], mutex = Some (Worker 0),
      stop = False, cpc = C_Idle, calls = [], dequeued = [], executed = []\<rparr>
     = Some \<lparr>workers = [\<lparr>pc = W_Unlock 7, joinable = True\<rparr>], tasks = [], mutex = Some (Worker 0),
      stop = False, cpc = C_Idle, calls = [], dequeued = [7], executed = []\<rparr>"
proof -
  let ?s = "\<lparr>workers = [\<lparr>pc = W_Check, joinable = True\<rparr>], tasks = [7], mutex = Some (Worker 0),
      stop = False, cpc = C_Idle, calls = [], dequeued = [], executed = []\<rparr>"
  have r: "run [Cl 0, Cl 0, Cl 0, Cl 0, Cl 0, Wk 0, Wk 0] (start 1 [Enqueue 7]) = Some ?s"
    by code_simp
  have i: "0 < length (workers ?s)" and c: "pc (workers ?s ! 0) = W_Check" by simp_all
  from worker_after_wake [OF r i c] r show ?thesis
    by (simp add: set_pc_def)
qed

text \<open>
  C1 as stated fails: with one worker, a task 7 is enqueued and the destructor sets the
  stop flag before the worker looks at the queue. The worker finds the flag set at line
  45 and returns; task 7 stays in the queue, it is neither removed nor returned.
\<close>

theorem worker_after_wake_counterexample:
  "run [Cl 0, Cl 0, Cl 0, Cl 0, Cl 0, Cl 0, Cl 0, Cl 0, Wk 0, Wk 0]
      (start 1 [Enqueue 7, Shutdown])
     = Some \<lparr>workers = [\<lparr>pc = W_Check, joinable = True\<rparr>], tasks = [7], mutex = Some (Worker 0),
       stop = True, cpc = D_Join 0, calls = [], dequeued = [], executed = []\<rparr>
   \<and> step (Wk 0)
       \<lparr>workers = [\<lparr>pc = W_Check, joinable = True\<rparr>], tasks = [7], mutex = Some (Worker 0),
       stop = True, cpc = D_Join 0, calls = [], dequeued = [], executed = []\<rparr>
     = Some \<lparr>workers = [\<lparr>pc = W_Done, joinable = True\<rparr>], tasks = [7], mutex = None,
       stop = True, cpc = D_Join 0, calls = [], dequeued = [], executed = []\<rparr>"
  by code_simp

subsection \<open>Shutdown and the submitted tasks\<close>

text \<open>
  C2 (amended): for every number of workers and every sequence of tasks enqueued before
  the destructor runs, no task is ever run more often than it was submitted; and when the
  destructor has returned, every worker has finished and been joined, and each submitted
  task has either been run exactly once or is still in the queue, where it stays.
\<close>

theorem jobs_run_at_most_once_or_stay_queued:
  assumes "run sched (start n (map Enqueue js @ [Shutdown])) = Some s"
  shows "mset (executed s) \<subseteq># mset js
       \<and> (cpc s = C_Idle \<and> calls s = [] \<longrightarrow>
            stop s
          \<and> (\<forall>t\<in>set (workers s). pc t = W_Done \<and> \<not> joinable t)
          \<and> mset (executed s) + mset (tasks s) = mset js)"
proof -
  have inv: "pool_inv js s"
    using reachable_inv [OF assms] by (simp add: jobs_of_enqueues)
  then have h: "dequeued s @ tasks s @ pending s = js"
    and f: "mset (dequeued s) = mset (executed s) + mset (inflight (workers s))"
    and j: "join_inv s"
    by (simp_all add: pool_inv_def hist_inv_def flight_inv_def)
  have "mset js = mset (dequeued s) + mset (tasks s) + mset (pending s)"
    by (subst h [symmetric]) simp
  then have m: "mset js = mset (executed s) + mset (inflight (workers s))
      + mset (tasks s) + mset (pending s)"
    using f by simp
  then have a: "mset (executed s) \<subseteq># mset js"
    by (simp add: add.assoc)
  have b: "stop s \<and> (\<forall>t\<in>set (workers s). pc t = W_Done \<and> \<not> joinable t)
      \<and> mset (executed s) + mset (tasks s) = mset js"
    if idle: "cpc s = C_Idle" "calls s = []"
  proof -
    have "shut_inv (map Enqueue js @ [Shutdown]) s"
      by (rule shut_inv_run [OF shut_inv_start assms])
    then have st: "stop s" using idle by (simp add: shut_inv_def)
    have d: "\<forall>t\<in>set (workers s). pc t = W_Done \<and> \<not> joinable t"
      using joined_all_done [OF j st] idle by simp
    then have "inflight (workers s) = []" by (intro inflight_done) simp
    moreover have "pending s = []" using idle by (simp add: pending_def)
    ultimately show ?thesis using m st d by simp
  qed
  from a b show ?thesis by blast
qed

theorem jobs_run_at_most_once_or_stay_queued_witness:
  "run [Cl 0, Cl 0, Cl 0, Cl 0, Cl 0, Wk 0, Wk 0, Wk 0, Wk 0, Wk 0, Wk 0, Wk 0, Wk 0, Wk 0, Cl 0, Cl 0, Cl 0, Wk 0, Wk 0, Wk 0, Cl 0, Cl 0]
      (start 1 (map Enqueue [7] @ [Shutdown]))
     = Some \<lparr>workers = [\<lparr>pc = W_Done, joinable = False\<rparr>], tasks = [], mutex = None,
      stop = True, cpc = C_Idle, calls = [], dequeued = [7], executed = [7]\<rparr>
   \<and> mset [7] \<subseteq># mset [7 :: job]
   \<and> mset [7] + mset [] = mset [7 :: job]"
proof -
  let ?s = "\<lparr>workers = [\<lparr>pc = W_Done, joinable = False\<rparr>], tasks = [], mutex = None,
      stop = True, cpc = C_Idle, calls = [], dequeued = [7], executed = [7]\<rparr>"
  have r: "run [Cl 0, Cl 0, Cl 0, Cl 0, Cl 0, Wk 0, Wk 0, Wk 0, Wk 0, Wk 0, Wk 0, Wk 0, Wk 0, Wk 0, Cl 0, Cl 0, Cl 0, Wk 0, Wk 0, Wk 0, Cl 0, Cl 0]
      (start 1 (map Enqueue [7] @ [Shutdown])) = Some ?s"
    by code_simp
  from jobs_run_at_most_once_or_stay_queued [OF r] r show ?thesis by simp
qed

text \<open>
  C2 as stated fails: with one worker, task 7 is enqueued and the destructor runs before
  the worker has looked at the queue. The worker sees the stop flag and returns, the
  destructor joins it and returns: task 7 has been run zero times.
\<close>

theorem shutdown_drops_queued_job_counterexample:
  "run [Cl 0, Cl 0, Cl 0, Cl 0, Cl 0, Cl 0, Cl 0, Cl 0, Wk 0, Wk 0, Wk 0, Cl 0, Cl 0]
      (start 1 [Enqueue 7, Shutdown])
     = Some \<lparr>workers = [\<lparr>pc = W_Done, joinable = False\<rparr>], tasks = [7], mutex = None,
       stop = True, cpc = C_Idle, calls = [], dequeued = [], executed = []\<rparr>"
  by code_simp

subsection \<open>Construction\<close>

text \<open>
  C3 (amended): the constructor takes a \<^verbatim>\<open>size_t\<close> and has no failing branch: for every
  value of \<open>threads\<close>, zero included, it creates the pool, with exactly \<open>threads\<close> worker
  threads started, an empty queue and the stop flag false. There is no
  InvalidConfiguration error; a negative count cannot reach the constructor, it
  arrives converted to a \<^verbatim>\<open>size_t\<close>.
\<close>

theorem ThreadPool_starts_every_count:
  "workers (ThreadPool threads) = replicate (unat threads) \<lparr>pc = W_Lock, joinable = True\<rparr>
   \<and> length (workers (ThreadPool threads)) = unat threads
   \<and> tasks (ThreadPool threads) = []
   \<and> mutex (ThreadPool threads) = None
   \<and> stop (ThreadPool threads) = False"
  by (simp add: ThreadPool_def start_workers_replicate new_thread_def)

text \<open>
  C3 as stated fails: constructing a pool with \<open>workerCount = 0\<close> does not fail, it gives a
  pool with no workers.
\<close>

theorem ThreadPool_zero_workers_counterexample:
  "ThreadPool 0 = \<lparr>workers = [], tasks = [], mutex = None, stop = False\<rparr>"
  by (simp add: ThreadPool_def)

subsection \<open>First in, first out\<close>

text \<open>
  C4: the tasks taken from the queue so far are, in the order they were taken, an initial
  segment of the tasks of the client's \<^verbatim>\<open>enqueue\<close> calls in program order: the i-th
  dequeue removes the i-th task submitted. The rest of the submitted tasks is in the
  queue or still to be enqueued, in order.
\<close>

theorem dequeue_order_is_enqueue_order:
  assumes "run sched (start n cs) = Some s"
  shows "prefix (dequeued s) (jobs_of cs)
       \<and> dequeued s @ tasks s @ pending s = jobs_of cs
       \<and> (\<forall>i<length (dequeued s). dequeued s ! i = jobs_of cs ! i)"
proof -
  have h: "dequeued s @ tasks s @ pending s = jobs_of cs"
    using reachable_inv [OF assms] by (simp add: pool_inv_def hist_inv_def)
  then have p: "prefix (dequeued s) (jobs_of cs)" by (metis prefixI)
  have "\<forall>i<length (dequeued s). dequeued s ! i = jobs_of cs ! i"
    using h by (metis nth_append)
  with h p show ?thesis by simp
qed

theorem dequeue_order_is_enqueue_order_witness:
  "run [Cl 0, Cl 0, Cl 0, Cl 0, Cl 0, Cl 0, Cl 0, Cl 0, Cl 0, Cl 0, Wk 0, Wk 0, Wk 0, Wk 0, Wk 0, Wk 1, Wk 1, Wk 1, Wk 1]
      (start 2 [Enqueue 3, Enqueue 5])
     = Some \<lparr>workers = [\<lparr>pc = W_Exec 3, joinable = True\<rparr>, \<lparr>pc = W_Unlock 5, joinable = True\<rparr>], tasks = [], mutex = Some (Worker 1),
      stop = False, cpc = C_Idle, calls = [], dequeued = [3, 5], executed = []\<rparr>
   \<and> prefix [3, 5] (jobs_of [Enqueue 3, Enqueue 5])
   \<and> [3, 5] ! 0 = jobs_of [Enqueue 3, Enqueue 5] ! 0
   \<and> [3, 5] ! 1 = jobs_of [Enqueue 3, Enqueue 5] ! 1"
proof -
  let ?s = "\<lparr>workers = [\<lparr>pc = W_Exec 3, joinable = True\<rparr>, \<lparr>pc = W_Unlock 5, joinable = True\<rparr>], tasks = [], mutex = Some (Worker 1),
      stop = False, cpc = C_Idle, calls = [], dequeued = [3, 5], executed = []\<rparr>"
  have r: "run [Cl 0, Cl 0, Cl 0, Cl 0, Cl 0, Cl 0, Cl 0, Cl 0, Cl 0, Cl 0, Wk 0, Wk 0, Wk 0, Wk 0, Wk 0, Wk 1, Wk 1, Wk 1, Wk 1]
      (start 2 [Enqueue 3, Enqueue 5]) = Some ?s"
    by code_simp
  from dequeue_order_is_enqueue_order [OF r] r show ?thesis by simp
qed

subsection \<open>enqueue\<close>

text \<open>
  C6: a call \<^verbatim>\<open>enqueue(f)\<close> that finds the mutex free runs to its end and leaves the queue
  with \<open>f\<close> appended at the back; nothing else of the pool changes, except that
  \<^verbatim>\<open>notify_one\<close> wakes one of the workers blocked on the condition when there is one. Of
  the steps of \<^verbatim>\<open>enqueue\<close> only the acquisition of the mutex can block, and only while the
  mutex is held.
\<close>

theorem enqueue_appends_and_notifies:
  assumes idle: "cpc s = C_Idle" and c: "calls s = Enqueue f # rest" and free: "mutex s = None"
  shows "run [Cl k0, Cl k1, Cl k2, Cl k, Cl k4] s
          = Some (s\<lparr>workers := notify_one k (workers s), tasks := tasks s @ [f], calls := rest\<rparr>)
       \<and> wakes (workers s) (notify_one k (workers s))
       \<and> ((\<exists>i<length (workers s). pc (workers s ! i) = W_Blocked) \<longrightarrow>
            (\<exists>i<length (workers s). pc (workers s ! i) = W_Blocked
               \<and> notify_one k (workers s) = (workers s)[i := (workers s ! i)\<lparr>pc := W_Woken\<rparr>]))
       \<and> (\<forall>s1. (\<exists>g. cpc s1 = E_Lock g \<or> cpc s1 = E_Push g) \<or> cpc s1 = E_Notify
               \<or> cpc s1 = E_Unlock \<longrightarrow>
             (client_step k s1 = None \<longleftrightarrow> (\<exists>g. cpc s1 = E_Lock g) \<and> mutex s1 \<noteq> None))"
proof -
  have s1: "step (Cl k0) s = Some (s\<lparr>cpc := E_Lock f, calls := rest\<rparr>)"
    using idle c by (simp add: step_def client_step_def)
  have s2: "step (Cl k1) (s\<lparr>cpc := E_Lock f, calls := rest\<rparr>)
      = Some (s\<lparr>mutex := Some Client, cpc := E_Push f, calls := rest\<rparr>)"
    using free by (simp add: step_def client_step_def)
  have s3: "step (Cl k2) (s\<lparr>mutex := Some Client, cpc := E_Push f, calls := rest\<rparr>)
      = Some (s\<lparr>tasks := tasks s @ [f], mutex := Some Client, cpc := E_Notify, calls := rest\<rparr>)"
    by (simp add: step_def client_step_def)
  have s4: "step (Cl k)
        (s\<lparr>tasks := tasks s @ [f], mutex := Some Client, cpc := E_Notify, calls := rest\<rparr>)
      = Some (s\<lparr>workers := notify_one k (workers s), tasks := tasks s @ [f],
                 mutex := Some Client, cpc := E_Unlock, calls := rest\<rparr>)"
    by (simp add: step_def client_step_def)
  have s5: "step (Cl k4)
        (s\<lparr>workers := notify_one k (workers s), tasks := tasks s @ [f],
           mutex := Some Client, cpc := E_Unlock, calls := rest\<rparr>)
      = Some (s\<lparr>workers := notify_one k (workers s), tasks := tasks s @ [f], calls := rest\<rparr>)"
    using free idle by (simp add: step_def client_step_def)
  have a: "run [Cl k0, Cl k1, Cl k2, Cl k, Cl k4] s
          = Some (s\<lparr>workers := notify_one k (workers s), tasks := tasks s @ [f], calls := rest\<rparr>)"
    by (simp add: s1 s2 s3 s4 s5)
  have b: "\<exists>i<length (workers s). pc (workers s ! i) = W_Blocked
               \<and> notify_one k (workers s) = (workers s)[i := (workers s ! i)\<lparr>pc := W_Woken\<rparr>]"
    if "\<exists>i<length (workers s). pc (workers s ! i) = W_Blocked"
  proof -
    from that have "blocked (workers s) \<noteq> []"
      using blocked_mem [of _ "workers s"] by (metis empty_iff list.set(1))
    then obtain b bs where bl: "blocked (workers s) = b # bs"
      by (cases "blocked (workers s)") auto
    let ?i = "(b # bs) ! (k mod length (b # bs))"
    have "?i \<in> set (blocked (workers s))"
      unfolding bl by (rule nth_mem) simp
    then have "?i < length (workers s)" "pc (workers s ! ?i) = W_Blocked"
      by (simp_all add: blocked_mem)
    moreover have "notify_one k (workers s)
        = (workers s)[?i := (workers s ! ?i)\<lparr>pc := W_Woken\<rparr>]"
      by (simp add: notify_one_def bl Let_def)
    ultimately show ?thesis by blast
  qed
  have e: "\<forall>s1. (\<exists>g. cpc s1 = E_Lock g \<or> cpc s1 = E_Push g) \<or> cpc s1 = E_Notify
               \<or> cpc s1 = E_Unlock \<longrightarrow>
             (client_step k s1 = None \<longleftrightarrow> (\<exists>g. cpc s1 = E_Lock g) \<and> mutex s1 \<noteq> None)"
    by (auto simp: client_step_def split: if_splits)
  from a b e wakes_notify_one [of "workers s" k] show ?thesis by blast
qed

theorem enqueue_appends_and_notifies_witness:
  "run [Wk 0, Wk 0, Wk 0] (start 1 [Enqueue 7])
     = Some \<lparr>workers = [\<lparr>pc = W_Blocked, joinable = True\<rparr>], tasks = [], mutex = None,
      stop = False, cpc = C_Idle, calls = [Enqueue 7], dequeued = [], executed = []\<rparr>
   \<and> run [Cl 0, Cl 0, Cl 0, Cl 0, Cl 0]
       \<lparr>workers = [\<lparr>pc = W_Blocked, joinable = True\<rparr>], tasks = [], mutex = None,
      stop = False, cpc = C_Idle, calls = [Enqueue 7], dequeued = [], executed = []\<rparr>
     = Some \<lparr>workers = [\<lparr>pc = W_Woken, joinable = True\<rparr>], tasks = [7], mutex = None,
      stop = False, cpc = C_Idle, calls = [], dequeued = [], executed = []\<rparr>"
proof -
  let ?s = "\<lparr>workers = [\<lparr>pc = W_Blocked, joinable = True\<rparr>], tasks = [], mutex = None,
      stop = False, cpc = C_Idle, calls = [Enqueue 7], dequeued = [], executed = []\<rparr>"
  have r: "run [Wk 0, Wk 0, Wk 0] (start 1 [Enqueue 7]) = Some ?s"
    by code_simp
  have h: "cpc ?s = C_Idle" "calls ?s = Enqueue 7 # []" "mutex ?s = None" by simp_all
  have n: "notify_one 0 (workers ?s) = [\<lparr>pc = W_Woken, joinable = True\<rparr>]"
    by code_simp
  from enqueue_appends_and_notifies [OF h, of 0 0 0 0 0] r n show ?thesis by simp
qed

subsection \<open>The mutex is not held while a task runs\<close>

text \<open>
  C7: in every reachable state a worker that is about to run a task (line 49) does not
  hold the mutex; a worker holds the mutex exactly from the evaluation of the predicate to
  \<^verbatim>\<open>locker.unlock()\<close> (or to its return), and the client exactly in the append and notify
  section of \<^verbatim>\<open>enqueue\<close>. The only steps that run a task are a worker's step at line 49, so
  no thread runs a task while it holds the mutex.
\<close>

theorem no_job_runs_under_the_mutex:
  assumes r: "run sched (start n cs) = Some s"
  shows "(\<forall>i<length (workers s). \<forall>task.
            pc (workers s ! i) = W_Exec task \<longrightarrow> mutex s \<noteq> Some (Worker i))
       \<and> (\<forall>i<length (workers s). mutex s = Some (Worker i) \<longleftrightarrow> holds (pc (workers s ! i)))
       \<and> (mutex s = Some Client \<longleftrightarrow> client_holds (cpc s))
       \<and> (\<forall>a s'. step a s = Some s' \<longrightarrow> executed s' \<noteq> executed s \<longrightarrow>
            (\<exists>i task. a = Wk i \<and> i < length (workers s) \<and> pc (workers s ! i) = W_Exec task
               \<and> mutex s \<noteq> Some (Worker i) \<and> executed s' = executed s @ [task]))"
proof -
  have l: "lock_inv s" using reachable_inv [OF r] by (simp add: pool_inv_def)
  then have w: "\<forall>i<length (workers s). mutex s = Some (Worker i) \<longleftrightarrow> holds (pc (workers s ! i))"
    and c: "mutex s = Some Client \<longleftrightarrow> client_holds (cpc s)"
    by (auto simp: lock_inv_def)
  have x: "\<forall>i<length (workers s). \<forall>task.
            pc (workers s ! i) = W_Exec task \<longrightarrow> mutex s \<noteq> Some (Worker i)"
    using w by auto
  have e: "\<exists>i task. a = Wk i \<and> i < length (workers s) \<and> pc (workers s ! i) = W_Exec task
               \<and> mutex s \<noteq> Some (Worker i) \<and> executed s' = executed s @ [task]"
    if st: "step a s = Some s'" and ne: "executed s' \<noteq> executed s" for a s'
  proof (cases a)
    case (Cl k)
    then have "client_step k s = Some s'" using st by (simp add: step_def)
    then have "executed s' = executed s" unfolding client_step_def
      by (cases "cpc s") (auto split: if_splits list.splits call.splits)
    with ne show ?thesis by simp
  next
    case (Wk i)
    then have i: "i < length (workers s)" and ws: "worker_step i s = Some s'"
      using st by (simp_all add: step_def split: if_splits)
    from ws ne obtain task where "pc (workers s ! i) = W_Exec task"
        "executed s' = executed s @ [task]"
      unfolding worker_step_def
      by (cases "pc (workers s ! i)") (auto split: if_splits list.splits)
    then show ?thesis using Wk i x by blast
  next
    case (Spurious i)
    then have "s' = set_pc i W_Woken s" using st by (simp add: step_def split: if_splits)
    with ne show ?thesis by simp
  qed
  from x w c e show ?thesis by blast
qed

theorem no_job_runs_under_the_mutex_witness:
  "run [Cl 0, Cl 0, Cl 0, Cl 0, Cl 0, Wk 0, Wk 0, Wk 0, Wk 0, Wk 0] (start 1 [Enqueue 7])
     = Some \<lparr>workers = [\<lparr>pc = W_Exec 7, joinable = True\<rparr>], tasks = [], mutex = None,
      stop = False, cpc = C_Idle, calls = [], dequeued = [7], executed = []\<rparr>
   \<and> pc (workers
           \<lparr>workers = [\<lparr>pc = W_Exec 7, joinable = True\<rparr>], tasks = [], mutex = None,
      stop = False, cpc = C_Idle, calls = [], dequeued = [7], executed = []\<rparr> ! 0) = W_Exec 7
   \<and> mutex
       \<lparr>workers = [\<lparr>pc = W_Exec 7, joinable = True\<rparr>], tasks = [], mutex = None,
      stop = False, cpc = C_Idle, calls = [], dequeued = [7], executed = []\<rparr> \<noteq> Some (Worker 0)"
proof -
  let ?s = "\<lparr>workers = [\<lparr>pc = W_Exec 7, joinable = True\<rparr>], tasks = [], mutex = None,
      stop = False, cpc = C_Idle, calls = [], dequeued = [7], executed = []\<rparr>"
  have r: "run [Cl 0, Cl 0, Cl 0, Cl 0, Cl 0, Wk 0, Wk 0, Wk 0, Wk 0, Wk 0] (start 1 [Enqueue 7]) = Some ?s"
    by code_simp
  from no_job_runs_under_the_mutex [OF r] r show ?thesis by simp
qed

end
